theory Spec2Isabelle
  imports Main "HOL-Library.Log_Nat"
begin

section \<open>Persistent segment tree and branch tracker of \<open>persistent.py\<close>\<close>

text \<open>
  The development embeds the classes \<open>PersistentSegmentTreeNode\<close>,
  \<open>PersistentSegmentTree\<close> and \<open>FlightSearchBranchManager\<close>.
  Python exceptions are values of type \<open>error\<close>; a method that can leave a changed
  object behind when it raises returns its outcome together with the object after the call.
  A Python value of type \<open>Any\<close> is an \<open>'v option\<close>: \<open>None\<close> is Python's
  \<open>None\<close> (the value of a leaf that was never written), \<open>Some x\<close> any other value.
  The methods \<open>_build\<close>, \<open>_update\<close> and \<open>_query\<close> are \<open>priv_build\<close>,
  \<open>priv_update\<close> and \<open>priv_query\<close> here, and \<open>__init__\<close> of a class is named after
  the class.
\<close>

subsection \<open>Python primitives\<close>

datatype error = IndexError | AttributeError | RecursionError

text \<open>\<open>xs[i]\<close> on a Python list: a negative index counts from the end, an index outside
  \<open>[-len, len)\<close> raises \<open>IndexError\<close>.\<close>

definition py_getitem :: "'a list \<Rightarrow> int \<Rightarrow> error + 'a" where
  "py_getitem xs i =
     (let n = int (length xs) in
      if 0 \<le> i \<and> i < n then Inr (xs ! nat i)
      else if - n \<le> i \<and> i < 0 then Inr (xs ! nat (n + i))
      else Inl IndexError)"

text \<open>\<open>xs[i] = x\<close> on a Python list, with the same index rule.\<close>

definition py_setitem :: "'a list \<Rightarrow> int \<Rightarrow> 'a \<Rightarrow> error + 'a list" where
  "py_setitem xs i x =
     (let n = int (length xs) in
      if 0 \<le> i \<and> i < n then Inr (xs[nat i := x])
      else if - n \<le> i \<and> i < 0 then Inr (xs[nat (n + i) := x])
      else Inl IndexError)"

subsection \<open>Nodes\<close>

text \<open>\<open>PersistentSegmentTreeNode\<close>: the range \<open>[left, right]\<close>, the value, and the two
  children, each of which may be \<open>None\<close>.\<close>

datatype 'v node =
  Node (left: int) (right: int) (node_value: "'v option")
       (left_child: "'v node option") (right_child: "'v node option")

subsection \<open>The tree\<close>

record 'v pst =
  pst_size :: int
  versions :: "'v node list"

text \<open>\<open>_build(l, r)\<close>. The recursion of the source does not end when \<open>l > r\<close>. The first
  argument is the number of nested calls of \<open>_build\<close> that are allowed, and \<open>RecursionError\<close>
  is the outcome when the recursion needs more. It counts the calls of \<open>_build\<close> only: the
  interpreter's recursion limit is such an allowance from which the frames of the callers
  come off as well, so no statement below is about a value of that limit.\<close>

fun priv_build :: "nat \<Rightarrow> int \<Rightarrow> int \<Rightarrow> error + 'v node" where
  "priv_build 0 l r = Inl RecursionError"
| "priv_build (Suc depth) l r =
     (if l = r then Inr (Node l r None None None)
      else let m = (l + r) div 2 in
        (case priv_build depth l m of
           Inl e \<Rightarrow> Inl e
         | Inr lc \<Rightarrow>
            (case priv_build depth (m + 1) r of
               Inl e \<Rightarrow> Inl e
             | Inr rc \<Rightarrow> Inr (Node l r None (Some lc) (Some rc)))))"

text \<open>\<open>PersistentSegmentTree.__init__(size)\<close>.\<close>

definition PST_init :: "nat \<Rightarrow> int \<Rightarrow> error + 'v pst" where
  "PST_init depth n =
     (case priv_build depth 0 (n - 1) of
        Inl e \<Rightarrow> Inl e
      | Inr rt \<Rightarrow> Inr \<lparr>pst_size = n, versions = [] @ [rt]\<rparr>)"

text \<open>\<open>_update(node, idx, value)\<close>. The argument is an optional node: the source passes
  \<open>node.left_child\<close> on, and reading \<open>.left\<close> of \<open>None\<close> raises \<open>AttributeError\<close>.\<close>

fun priv_update :: "'v node option \<Rightarrow> int \<Rightarrow> 'v option \<Rightarrow> error + 'v node" where
  "priv_update None idx x = Inl AttributeError"
| "priv_update (Some (Node nl nr v lc rc)) idx x =
     (if nl = nr then Inr (Node nl nr x None None)
      else let m = (nl + nr) div 2 in
        if idx \<le> m then
          (case priv_update lc idx x of
             Inl e \<Rightarrow> Inl e
           | Inr lc' \<Rightarrow> Inr (Node nl nr v (Some lc') rc))
        else
          (case priv_update rc idx x of
             Inl e \<Rightarrow> Inl e
           | Inr rc' \<Rightarrow> Inr (Node nl nr v lc (Some rc'))))"

text \<open>\<open>update(version, idx, value)\<close>: the outcome and the tree object after the call.\<close>

definition update :: "'v pst \<Rightarrow> int \<Rightarrow> int \<Rightarrow> 'v option \<Rightarrow> (error + int) \<times> 'v pst" where
  "update self version idx x =
     (case py_getitem (versions self) version of
        Inl e \<Rightarrow> (Inl e, self)
      | Inr rt \<Rightarrow>
         (case priv_update (Some rt) idx x of
            Inl e \<Rightarrow> (Inl e, self)
          | Inr new_root \<Rightarrow>
             (let self' = self\<lparr>versions := versions self @ [new_root]\<rparr>
              in (Inr (int (length (versions self')) - 1), self'))))"

text \<open>\<open>_query(node, l, r)\<close>, on an optional node as \<open>_update\<close>. The two last
  \<open>return\<close> statements of the source are the same expression; the sum of the two lists
  evaluates the left operand first.\<close>

fun priv_query :: "'v node option \<Rightarrow> int \<Rightarrow> int \<Rightarrow> error + 'v option list" where
  "priv_query None l r = Inl AttributeError"
| "priv_query (Some (Node nl nr v lc rc)) l r =
     (if nr < l \<or> nl > r then Inr []
      else if l \<le> nl \<and> nr \<le> r then
        (if nl = nr then Inr [v]
         else
           (case priv_query lc l r of
              Inl e \<Rightarrow> Inl e
            | Inr xs \<Rightarrow>
               (case priv_query rc l r of
                  Inl e \<Rightarrow> Inl e
                | Inr ys \<Rightarrow> Inr (xs @ ys))))
      else
        (case priv_query lc l r of
           Inl e \<Rightarrow> Inl e
         | Inr xs \<Rightarrow>
            (case priv_query rc l r of
               Inl e \<Rightarrow> Inl e
             | Inr ys \<Rightarrow> Inr (xs @ ys))))"

text \<open>\<open>query(version, l, r)\<close>. It assigns nothing, so only the outcome is returned.\<close>

definition query :: "'v pst \<Rightarrow> int \<Rightarrow> int \<Rightarrow> int \<Rightarrow> error + 'v option list" where
  "query self version l r =
     (case py_getitem (versions self) version of
        Inl e \<Rightarrow> Inl e
      | Inr rt \<Rightarrow> priv_query (Some rt) l r)"

text \<open>A tree object after construction and a sequence of \<open>update\<close> calls, each given by
  its arguments \<open>(version, idx, value)\<close>; the object after a call that raises is the
  object that call leaves behind.\<close>

fun updates :: "'v pst \<Rightarrow> (int \<times> int \<times> 'v option) list \<Rightarrow> 'v pst" where
  "updates self [] = self"
| "updates self ((version, idx, x) # calls) = updates (snd (update self version idx x)) calls"

definition pst_after :: "nat \<Rightarrow> int \<Rightarrow> (int \<times> int \<times> 'v option) list \<Rightarrow> error + 'v pst" where
  "pst_after depth n calls =
     (case PST_init depth n of
        Inl e \<Rightarrow> Inl e
      | Inr self \<Rightarrow> Inr (updates self calls))"

subsection \<open>The branch tracker\<close>

text \<open>\<open>FlightSearchBranchManager\<close>. A branch record \<open>{'params': params, 'result': result}\<close>
  is a pair; \<open>branch_params\<close> is a list of optional records.\<close>

record ('p, 'v) fsbm =
  tree :: "'v pst"
  branch_params :: "('p \<times> 'v option) option list"
  current_version :: int
  next_idx :: int

text \<open>\<open>FlightSearchBranchManager.__init__(max_branches)\<close>; \<open>[None] * max_branches\<close> is the
  empty list when \<open>max_branches\<close> is not positive.\<close>

definition FSBM_init :: "nat \<Rightarrow> int \<Rightarrow> error + ('p, 'v) fsbm" where
  "FSBM_init depth max_branches =
     (case PST_init depth max_branches of
        Inl e \<Rightarrow> Inl e
      | Inr t \<Rightarrow>
          Inr \<lparr>tree = t, branch_params = replicate (nat max_branches) None,
               current_version = 0, next_idx = 0\<rparr>)"

text \<open>\<open>add_branch(params, result, from_version)\<close>: the outcome and the tracker after the
  call. The assignments happen in the order of the source, so what was assigned before a
  statement raises stays assigned.\<close>

definition add_branch ::
  "('p, 'v) fsbm \<Rightarrow> 'p \<Rightarrow> 'v option \<Rightarrow> int option \<Rightarrow> (error + int) \<times> ('p, 'v) fsbm" where
  "add_branch self params result from_version =
     (let idx = next_idx self in
      case py_setitem (branch_params self) idx (Some (params, result)) of
        Inl e \<Rightarrow> (Inl e, self)
      | Inr bp \<Rightarrow>
         (let self1 = self\<lparr>branch_params := bp\<rparr>;
              from_version' = (case from_version of None \<Rightarrow> current_version self1 | Some v \<Rightarrow> v)
          in case update (tree self1) from_version' idx result of
               (Inl e, t') \<Rightarrow> (Inl e, self1\<lparr>tree := t'\<rparr>)
             | (Inr new_version, t') \<Rightarrow>
                 (Inr new_version,
                  self1\<lparr>tree := t', next_idx := next_idx self1 + 1,
                        current_version := new_version\<rparr>)))"

text \<open>\<open>get_branch_result(version, idx)\<close>: element \<open>0\<close> of the point query.\<close>

definition get_branch_result :: "('p, 'v) fsbm \<Rightarrow> int \<Rightarrow> int \<Rightarrow> error + 'v option" where
  "get_branch_result self version idx =
     (case query (tree self) version idx idx of
        Inl e \<Rightarrow> Inl e
      | Inr xs \<Rightarrow> py_getitem xs 0)"

text \<open>\<open>get_all_results(version)\<close>.\<close>

definition get_all_results :: "('p, 'v) fsbm \<Rightarrow> int \<Rightarrow> error + 'v option list" where
  "get_all_results self version = query (tree self) version 0 (next_idx self - 1)"

text \<open>A tracker after construction and a sequence of \<open>add_branch\<close> calls.\<close>

fun add_branches ::
  "('p, 'v) fsbm \<Rightarrow> ('p \<times> 'v option \<times> int option) list \<Rightarrow> ('p, 'v) fsbm" where
  "add_branches self [] = self"
| "add_branches self ((params, result, from_version) # calls) =
     add_branches (snd (add_branch self params result from_version)) calls"

definition fsbm_after ::
  "nat \<Rightarrow> int \<Rightarrow> ('p \<times> 'v option \<times> int option) list \<Rightarrow> error + ('p, 'v) fsbm" where
  "fsbm_after depth max_branches calls =
     (case FSBM_init depth max_branches of
        Inl e \<Rightarrow> Inl e
      | Inr self \<Rightarrow> Inr (add_branches self calls))"

subsection \<open>The shape of a tree and its leaves\<close>

text \<open>A node is \<open>shaped\<close> when its range is not empty and, unless it is a leaf
  (\<open>left = right\<close>), it has both children, which split the range at the midpoint and are
  shaped themselves.\<close>

fun shaped :: "'v node \<Rightarrow> bool" where
  "shaped (Node nl nr v lc rc) =
     (nl \<le> nr \<and>
      (nl = nr \<or>
       (case lc of
          None \<Rightarrow> False
        | Some a \<Rightarrow>
           (case rc of
              None \<Rightarrow> False
            | Some b \<Rightarrow>
                left a = nl \<and> right a = (nl + nr) div 2 \<and>
                left b = (nl + nr) div 2 + 1 \<and> right b = nr \<and> shaped a \<and> shaped b))))"

text \<open>The leaves below a node, from left to right, each with its index and its value.\<close>

fun leaves :: "'v node \<Rightarrow> (int \<times> 'v option) list" where
  "leaves (Node nl nr v lc rc) =
     (if nl = nr then [(nl, v)]
      else (case lc of None \<Rightarrow> [] | Some a \<Rightarrow> leaves a) @
           (case rc of None \<Rightarrow> [] | Some b \<Rightarrow> leaves b))"

text \<open>The values of the leaves whose index lies in \<open>[l, r]\<close>, in the order of the leaves.\<close>

definition leaves_in :: "'v node \<Rightarrow> int \<Rightarrow> int \<Rightarrow> 'v option list" where
  "leaves_in t l r = map snd (filter (\<lambda>p. l \<le> fst p \<and> fst p \<le> r) (leaves t))"

text \<open>Writing \<open>x\<close> to the leaf of index \<open>c\<close> in such a list.\<close>

definition set_leaf :: "int \<Rightarrow> 'v option \<Rightarrow> int \<times> 'v option \<Rightarrow> int \<times> 'v option" where
  "set_leaf c x p = (if fst p = c then (fst p, x) else p)"

text \<open>The invariant of a tree object of size \<open>n\<close>: there is a version, and every version
  is a shaped tree over \<open>[0, n - 1]\<close>.\<close>

definition tree_ok :: "int \<Rightarrow> 'v pst \<Rightarrow> bool" where
  "tree_ok n self \<longleftrightarrow>
     pst_size self = n \<and> 1 \<le> n \<and> versions self \<noteq> [] \<and>
     list_all (\<lambda>rt. shaped rt \<and> left rt = 0 \<and> right rt = n - 1) (versions self)"

subsection \<open>The tracker invariant\<close>

text \<open>The version that \<open>add_branch\<close> updates from: \<open>current_version\<close> when the argument
  is \<open>None\<close>.\<close>

definition from_version_of :: "('p, 'v) fsbm \<Rightarrow> int option \<Rightarrow> int" where
  "from_version_of self from_version =
     (case from_version of None \<Rightarrow> current_version self | Some v \<Rightarrow> v)"

text \<open>The invariant of a tracker with \<open>max_branches = mx\<close>: the tree and the slot list have
  this size, every successful \<open>add_branch\<close> made one version and took one slot, no version
  holds a value at a slot that was not taken yet, and version \<open>0\<close> holds no value.\<close>

definition fsbm_ok :: "int \<Rightarrow> ('p, 'v) fsbm \<Rightarrow> bool" where
  "fsbm_ok mx self \<longleftrightarrow>
     tree_ok mx (tree self) \<and> length (branch_params self) = nat mx \<and>
     0 \<le> next_idx self \<and> next_idx self \<le> mx \<and>
     int (length (versions (tree self))) = next_idx self + 1 \<and>
     current_version self = next_idx self \<and>
     list_all (\<lambda>rt. list_all (\<lambda>p. fst p < next_idx self \<or> snd p = None) (leaves rt))
       (versions (tree self)) \<and>
     list_all (\<lambda>p. snd p = None) (leaves (hd (versions (tree self))))"

subsection \<open>Versions as lists of values\<close>

text \<open>The values that the leaves below a node hold, from left to right.\<close>

definition values_of :: "'v node \<Rightarrow> 'v option list" where
  "values_of t = map snd (leaves t)"

text \<open>What a sequence of \<open>update\<close> calls does when a version is the list of its \<open>n\<close>
  values: a call from a version that exists adds a copy of that version's list with one
  position set, the position being \<open>idx\<close> moved into \<open>[0, n - 1]\<close>; any other call adds
  nothing. The first version holds \<open>None\<close> everywhere.\<close>

definition array_update ::
  "'v option list list \<Rightarrow> int \<times> int \<times> 'v option \<Rightarrow> 'v option list list" where
  "array_update vs c =
     (case c of (version, idx, x) \<Rightarrow>
        (case py_getitem vs version of
           Inl e \<Rightarrow> vs
         | Inr a \<Rightarrow> vs @ [a[nat (max 0 (min (int (length a) - 1) idx)) := x]]))"

definition arrays_after :: "int \<Rightarrow> (int \<times> int \<times> 'v option) list \<Rightarrow> 'v option list list" where
  "arrays_after n calls = foldl array_update [replicate (nat n) None] calls"

subsection \<open>Nodes as objects of a store\<close>

text \<open>For the nodes that an update creates and the nodes that it shares, a node is an
  object with an identity. The store is the list of all node objects in the order of their
  creation, and a reference to a node is its position in the store; a child is a reference
  or \<open>None\<close>. The source never assigns to a field of a node after \<open>__init__\<close>, so the
  store only grows.\<close>

record 'v obj =
  o_left :: int
  o_right :: int
  o_value :: "'v option"
  o_left_child :: "nat option"
  o_right_child :: "nat option"

type_synonym 'v heap = "'v obj list"

text \<open>\<open>PersistentSegmentTreeNode(...)\<close>: the new object is put at the end of the store, and
  the reference to it is returned.\<close>

definition new_node :: "'v heap \<Rightarrow> 'v obj \<Rightarrow> 'v heap \<times> nat" where
  "new_node h nd = (h @ [nd], length h)"

text \<open>\<open>_update(node, idx, value)\<close> on references. The recursion follows references, so its
  depth is bounded as in \<open>priv_build\<close>. A position outside the store refers to no object; the
  source cannot hold such a reference, and the function treats it as it treats \<open>None\<close>.\<close>

fun heap_update ::
  "nat \<Rightarrow> 'v heap \<Rightarrow> nat option \<Rightarrow> int \<Rightarrow> 'v option \<Rightarrow> error + ('v heap \<times> nat)" where
  "heap_update 0 h node idx x = Inl RecursionError"
| "heap_update (Suc depth) h None idx x = Inl AttributeError"
| "heap_update (Suc depth) h (Some a) idx x =
     (if length h \<le> a then Inl AttributeError
      else let node = h ! a in
        if o_left node = o_right node then
          Inr (new_node h \<lparr>o_left = o_left node, o_right = o_right node, o_value = x,
                           o_left_child = None, o_right_child = None\<rparr>)
        else let m = (o_left node + o_right node) div 2 in
          if idx \<le> m then
            (case heap_update depth h (o_left_child node) idx x of
               Inl e \<Rightarrow> Inl e
             | Inr (h', lc') \<Rightarrow>
                 Inr (new_node h' \<lparr>o_left = o_left node, o_right = o_right node,
                                   o_value = o_value node, o_left_child = Some lc',
                                   o_right_child = o_right_child node\<rparr>))
          else
            (case heap_update depth h (o_right_child node) idx x of
               Inl e \<Rightarrow> Inl e
             | Inr (h', rc') \<Rightarrow>
                 Inr (new_node h' \<lparr>o_left = o_left node, o_right = o_right node,
                                   o_value = o_value node, o_left_child = o_left_child node,
                                   o_right_child = Some rc'\<rparr>)))"

text \<open>\<open>_build(l, r)\<close> on the store: the children are created before their parent, the
  left child first.\<close>

fun heap_build :: "nat \<Rightarrow> 'v heap \<Rightarrow> int \<Rightarrow> int \<Rightarrow> error + ('v heap \<times> nat)" where
  "heap_build 0 h l r = Inl RecursionError"
| "heap_build (Suc depth) h l r =
     (if l = r then
        Inr (new_node h \<lparr>o_left = l, o_right = r, o_value = None,
                         o_left_child = None, o_right_child = None\<rparr>)
      else let m = (l + r) div 2 in
        (case heap_build depth h l m of
           Inl e \<Rightarrow> Inl e
         | Inr (h1, lc) \<Rightarrow>
            (case heap_build depth h1 (m + 1) r of
               Inl e \<Rightarrow> Inl e
             | Inr (h2, rc) \<Rightarrow>
                 Inr (new_node h2 \<lparr>o_left = l, o_right = r, o_value = None,
                                   o_left_child = Some lc, o_right_child = Some rc\<rparr>))))"

text \<open>The references that an object holds, and the objects that can be reached from an
  object through them.\<close>

definition children :: "'v obj \<Rightarrow> nat list" where
  "children nd =
     (case o_left_child nd of None \<Rightarrow> [] | Some c \<Rightarrow> [c]) @
     (case o_right_child nd of None \<Rightarrow> [] | Some c \<Rightarrow> [c])"

inductive reach :: "'v heap \<Rightarrow> nat \<Rightarrow> nat \<Rightarrow> bool" for h :: "'v heap" and a :: nat where
  self: "a < length h \<Longrightarrow> reach h a a"
| step: "reach h a b \<Longrightarrow> c \<in> set (children (h ! b)) \<Longrightarrow> reach h a c"

code_pred reach .

text \<open>In a store, every object was created after its children.\<close>

definition heap_closed :: "'v heap \<Rightarrow> bool" where
  "heap_closed h = list_all (\<lambda>a. list_all (\<lambda>c. c < a) (children (h ! a))) [0..<length h]"

text \<open>The object at reference \<open>a\<close> of the store \<open>h\<close> is the root of the tree \<open>t\<close>.\<close>

fun repr :: "'v heap \<Rightarrow> nat \<Rightarrow> 'v node \<Rightarrow> bool" where
  "repr h a (Node nl nr v lc rc) =
     (a < length h \<and> o_left (h ! a) = nl \<and> o_right (h ! a) = nr \<and> o_value (h ! a) = v \<and>
      (case lc of
         None \<Rightarrow> o_left_child (h ! a) = None
       | Some lsub \<Rightarrow> (case o_left_child (h ! a) of None \<Rightarrow> False | Some al \<Rightarrow> repr h al lsub)) \<and>
      (case rc of
         None \<Rightarrow> o_right_child (h ! a) = None
       | Some rsub \<Rightarrow> (case o_right_child (h ! a) of None \<Rightarrow> False | Some ar \<Rightarrow> repr h ar rsub)))"

text \<open>The number of nodes on the path that \<open>_update\<close> takes from a node to a leaf.\<close>

fun path_len :: "'v node \<Rightarrow> int \<Rightarrow> nat" where
  "path_len (Node nl nr v lc rc) idx =
     (if nl = nr then 1
      else if idx \<le> (nl + nr) div 2
        then Suc (case lc of None \<Rightarrow> 0 | Some a \<Rightarrow> path_len a idx)
        else Suc (case rc of None \<Rightarrow> 0 | Some b \<Rightarrow> path_len b idx))"

section \<open>Properties\<close>

subsection \<open>Construction\<close>

lemma priv_build_empty: "r < l \<Longrightarrow> priv_build depth l r = (Inl RecursionError :: error + 'v node)"
proof (induction depth arbitrary: r)
  case 0
  show ?case by simp
next
  case (Suc depth)
  have "(l + r) div 2 < l" using Suc.prems by linarith
  then have "priv_build depth l ((l + r) div 2) = (Inl RecursionError :: error + 'v node)"
    by (rule Suc.IH)
  with Suc.prems show ?case by (simp add: Let_def)
qed

lemma priv_build_Inr:
  "priv_build depth l r = Inr t \<Longrightarrow>
     shaped t \<and> left t = l \<and> right t = r \<and> leaves t = map (\<lambda>i. (i, None)) [l..r]"
proof (induction depth arbitrary: l r t)
  case 0
  then show ?case by simp
next
  case (Suc depth)
  show ?case
  proof (cases "l = r")
    case True
    with Suc.prems show ?thesis by auto
  next
    case False
    let ?m = "(l + r) div 2"
    from Suc.prems False obtain a b where
      a: "priv_build depth l ?m = Inr a" and b: "priv_build depth (?m + 1) r = Inr b"
      and t: "t = Node l r None (Some a) (Some b)"
      by (auto simp: Let_def split: sum.splits)
    note A = Suc.IH [OF a] and B = Suc.IH [OF b]
    have la: "l \<le> ?m" using A by (cases a) auto
    have rb: "?m + 1 \<le> r" using B by (cases b) auto
    have "[l..r] = [l..?m] @ [?m + 1..r]"
      using la rb by (intro upto_split2) auto
    with A B t False la rb show ?thesis by auto
  qed
qed

lemma priv_build_enough:
  "l \<le> r \<Longrightarrow> r - l + 1 \<le> 2 ^ k \<Longrightarrow> \<exists>t. priv_build (Suc k) l r = (Inr t :: error + 'v node)"
proof (induction k arbitrary: l r)
  case 0
  then have "l = r" by simp
  then show ?case by simp
next
  case (Suc k)
  show ?case
  proof (cases "l = r")
    case True
    then show ?thesis by simp
  next
    case False
    let ?m = "(l + r) div 2"
    have p: "r - l + 1 \<le> 2 * 2 ^ k" using Suc.prems by simp
    have "l \<le> ?m" "?m - l + 1 \<le> 2 ^ k" using Suc.prems(1) False p by linarith+
    then obtain a :: "'v node" where a: "priv_build (Suc k) l ?m = Inr a"
      using Suc.IH by blast
    have "?m + 1 \<le> r" "r - (?m + 1) + 1 \<le> 2 ^ k" using Suc.prems(1) False p by linarith+
    then obtain b :: "'v node" where b: "priv_build (Suc k) (?m + 1) r = Inr b"
      using Suc.IH by blast
    show ?thesis
      using False a b by (subst priv_build.simps) (simp add: Let_def)
  qed
qed

lemma priv_build_Suc: "priv_build d l r = Inr t \<Longrightarrow> priv_build (Suc d) l r = Inr t"
proof (induction d arbitrary: l r t)
  case 0
  then show ?case by simp
next
  case (Suc d)
  show ?case
  proof (cases "l = r")
    case True
    with Suc.prems show ?thesis by simp
  next
    case False
    let ?m = "(l + r) div 2"
    from Suc.prems False obtain a b where
      a: "priv_build d l ?m = Inr a" and b: "priv_build d (?m + 1) r = Inr b"
      and t: "t = Node l r None (Some a) (Some b)"
      by (auto simp: Let_def split: sum.splits)
    from Suc.IH [OF a] Suc.IH [OF b] t False show ?thesis
      by (subst priv_build.simps) (simp add: Let_def)
  qed
qed

lemma priv_build_mono:
  assumes "d \<le> d'" "priv_build d l r = Inr t"
  shows "priv_build d' l r = Inr t"
  using assms(1)
proof (induction rule: dec_induct)
  case base
  show ?case by (rule assms(2))
next
  case (step k)
  then show ?case by (intro priv_build_Suc)
qed

subsection \<open>Leaves of a shaped tree\<close>

lemma shaped_le: "shaped t \<Longrightarrow> left t \<le> right t"
  by (cases t) simp

lemma leaves_fst: "shaped t \<Longrightarrow> map fst (leaves t) = [left t..right t]"
proof (induction t)
  case (Node nl nr v lc rc)
  show ?case
  proof (cases "nl = nr")
    case True
    then show ?thesis by simp
  next
    case False
    with Node.prems obtain a b where
      ab: "lc = Some a" "rc = Some b" and
      sh: "left a = nl" "right a = (nl + nr) div 2" "left b = (nl + nr) div 2 + 1" "right b = nr"
          "shaped a" "shaped b"
      by (auto split: option.splits)
    have A: "map fst (leaves a) = [nl..(nl + nr) div 2]"
      using Node.IH(1) [of a] ab sh by simp
    have B: "map fst (leaves b) = [(nl + nr) div 2 + 1..nr]"
      using Node.IH(2) [of b] ab sh by simp
    have "nl \<le> (nl + nr) div 2" "(nl + nr) div 2 + 1 \<le> nr"
      using shaped_le [OF sh(5)] shaped_le [OF sh(6)] sh by auto
    then have "[nl..nr] = [nl..(nl + nr) div 2] @ [(nl + nr) div 2 + 1..nr]"
      by (intro upto_split2) auto
    with A B ab False show ?thesis by simp
  qed
qed

lemma leaves_index: "shaped t \<Longrightarrow> p \<in> set (leaves t) \<Longrightarrow> left t \<le> fst p \<and> fst p \<le> right t"
proof -
  assume s: "shaped t" and p: "p \<in> set (leaves t)"
  from p have "fst p \<in> set (map fst (leaves t))" by simp
  then show ?thesis unfolding leaves_fst [OF s] by simp
qed

lemma leaves_in_outside:
  "shaped t \<Longrightarrow> right t < l \<or> r < left t \<Longrightarrow> leaves_in t l r = []"
  unfolding leaves_in_def by (auto simp: filter_empty_conv dest: leaves_index)

lemma leaves_in_split:
  "nl \<noteq> nr \<Longrightarrow>
   leaves_in (Node nl nr v (Some a) (Some b)) l r = leaves_in a l r @ leaves_in b l r"
  by (simp add: leaves_in_def)

lemma priv_query_shaped: "shaped t \<Longrightarrow> priv_query (Some t) l r = Inr (leaves_in t l r)"
proof (induction t)
  case (Node nl nr v lc rc)
  show ?case
  proof (cases "nr < l \<or> r < nl")
    case True
    then have "leaves_in (Node nl nr v lc rc) l r = []"
      using leaves_in_outside [OF Node.prems] by simp
    with True show ?thesis by auto
  next
    case inside: False
    show ?thesis
    proof (cases "nl = nr")
      case True
      with inside show ?thesis by (auto simp: leaves_in_def)
    next
      case False
      with Node.prems obtain a b where
        ab: "lc = Some a" "rc = Some b" and sh: "shaped a" "shaped b"
        by (auto split: option.splits)
      have A: "priv_query (Some a) l r = Inr (leaves_in a l r)"
        using Node.IH(1) [of a] ab sh by simp
      have B: "priv_query (Some b) l r = Inr (leaves_in b l r)"
        using Node.IH(2) [of b] ab sh by simp
      show ?thesis
        using inside False A B ab by (simp add: leaves_in_split)
    qed
  qed
qed

lemma filter_upto_range:
  "filter (\<lambda>i. l \<le> i \<and> i \<le> r) [a..b] = [max a l..min b r]"
proof (rule sorted_distinct_set_unique)
  show "sorted (filter (\<lambda>i. l \<le> i \<and> i \<le> r) [a..b])" by (rule sorted_wrt_filter) simp
  show "set (filter (\<lambda>i. l \<le> i \<and> i \<le> r) [a..b]) = set [max a l..min b r]" by auto
qed simp_all

lemma leaves_in_index:
  assumes "shaped t"
  shows "map fst (filter (\<lambda>p. l \<le> fst p \<and> fst p \<le> r) (leaves t)) =
           [max (left t) l..min (right t) r]"
proof -
  have "map fst (filter (\<lambda>p. l \<le> fst p \<and> fst p \<le> r) (leaves t)) =
        filter (\<lambda>i. l \<le> i \<and> i \<le> r) (map fst (leaves t))"
    by (simp add: filter_map comp_def)
  then show ?thesis by (simp add: leaves_fst [OF assms] filter_upto_range)
qed

lemma length_leaves_in:
  "shaped t \<Longrightarrow> length (leaves_in t l r) = length [max (left t) l..min (right t) r]"
  using arg_cong [OF leaves_in_index, of t length l r] by (simp add: leaves_in_def)

subsection \<open>Point update of a shaped tree\<close>

lemma priv_update_shaped:
  "shaped t \<Longrightarrow>
   \<exists>t'. priv_update (Some t) idx x = Inr t' \<and> shaped t' \<and> left t' = left t \<and> right t' = right t \<and>
        leaves t' = map (set_leaf (max (left t) (min (right t) idx)) x) (leaves t)"
proof (induction t)
  case (Node nl nr v lc rc)
  show ?case
  proof (cases "nl = nr")
    case True
    then show ?thesis by (simp add: set_leaf_def)
  next
    case False
    let ?m = "(nl + nr) div 2"
    from False Node.prems obtain a b where
      ab: "lc = Some a" "rc = Some b" and
      sh: "left a = nl" "right a = ?m" "left b = ?m + 1" "right b = nr" "shaped a" "shaped b"
      by (auto split: option.splits)
    have ia: "nl \<le> fst p \<and> fst p \<le> ?m" if "p \<in> set (leaves a)" for p
      using leaves_index [OF sh(5) that] sh by simp
    have ib: "?m + 1 \<le> fst p \<and> fst p \<le> nr" if "p \<in> set (leaves b)" for p
      using leaves_index [OF sh(6) that] sh by simp
    have mid: "nl \<le> ?m" "?m + 1 \<le> nr"
      using shaped_le [OF sh(5)] shaped_le [OF sh(6)] sh by auto
    show ?thesis
    proof (cases "idx \<le> ?m")
      case True
      from Node.IH(1) [of a] ab sh obtain a' where
        a': "priv_update (Some a) idx x = Inr a'" "shaped a'" "left a' = nl" "right a' = ?m"
          "leaves a' = map (\<lambda>p. if fst p = max nl (min ?m idx) then (fst p, x) else p) (leaves a)"
        by (auto simp: set_leaf_def [abs_def])
      have ea: "map (\<lambda>p. if fst p = max nl (min ?m idx) then (fst p, x) else p) (leaves a) =
            map (\<lambda>p. if fst p = max nl (min nr idx) then (fst p, x) else p) (leaves a)"
        using True ia mid by (intro map_cong) auto
      have eb: "map (\<lambda>p. if fst p = max nl (min nr idx) then (fst p, x) else p) (leaves b) = leaves b"
        using True ib mid by (intro map_idI) fastforce
      show ?thesis
        using False True ab sh a' ea eb mid by (simp add: Let_def set_leaf_def [abs_def])
    next
      case right: False
      from Node.IH(2) [of b] ab sh obtain b' where
        b': "priv_update (Some b) idx x = Inr b'" "shaped b'" "left b' = ?m + 1" "right b' = nr"
          "leaves b' = map (\<lambda>p. if fst p = max (?m + 1) (min nr idx) then (fst p, x) else p) (leaves b)"
        by (auto simp: set_leaf_def [abs_def])
      have eb: "map (\<lambda>p. if fst p = max (?m + 1) (min nr idx) then (fst p, x) else p) (leaves b) =
            map (\<lambda>p. if fst p = max nl (min nr idx) then (fst p, x) else p) (leaves b)"
        using right ib mid by (intro map_cong) auto
      have ea: "map (\<lambda>p. if fst p = max nl (min nr idx) then (fst p, x) else p) (leaves a) = leaves a"
        using right ia mid by (intro map_idI) fastforce
      show ?thesis
        using False right ab sh b' ea eb mid by (simp add: Let_def set_leaf_def [abs_def])
    qed
  qed
qed

lemma fst_set_leaf: "fst (set_leaf c x p) = fst p"
  by (simp add: set_leaf_def)

lemma leaves_in_set_other:
  assumes "leaves t' = map (set_leaf c x) (leaves t)" "c < l \<or> r < c"
  shows "leaves_in t' l r = leaves_in t l r"
proof -
  have "filter (\<lambda>p. l \<le> fst p \<and> fst p \<le> r) (map (set_leaf c x) (leaves t)) =
        map (set_leaf c x) (filter (\<lambda>p. l \<le> fst p \<and> fst p \<le> r) (leaves t))"
    by (simp add: filter_map comp_def fst_set_leaf)
  also have "\<dots> = filter (\<lambda>p. l \<le> fst p \<and> fst p \<le> r) (leaves t)"
    using assms(2) by (intro map_idI) (auto simp: set_leaf_def)
  finally show ?thesis by (simp add: leaves_in_def assms(1))
qed

lemma leaves_in_set_same:
  assumes "shaped t" "leaves t' = map (set_leaf c x) (leaves t)" "left t \<le> c" "c \<le> right t"
  shows "leaves_in t' c c = [x]"
proof -
  let ?P = "\<lambda>p :: int \<times> 'a option. c \<le> fst p \<and> fst p \<le> c"
  have "filter ?P (map (set_leaf c x) (leaves t)) = map (set_leaf c x) (filter ?P (leaves t))"
    by (simp add: filter_map comp_def fst_set_leaf)
  then have "leaves_in t' c c = map (\<lambda>p. x) (filter ?P (leaves t))"
    by (simp add: leaves_in_def assms(2) set_leaf_def cong: map_cong)
  moreover have "length (filter ?P (leaves t)) = 1"
    using arg_cong [OF leaves_in_index [OF assms(1)], of length c c] assms(3,4) by simp
  ultimately show ?thesis
    by (cases "filter ?P (leaves t)") auto
qed

subsection \<open>Python list access\<close>

lemma py_getitem_nonneg:
  "0 \<le> i \<Longrightarrow> i < int (length xs) \<Longrightarrow> py_getitem xs i = Inr (xs ! nat i)"
  by (simp add: py_getitem_def)

lemma py_getitem_neg:
  "- int (length xs) \<le> i \<Longrightarrow> i < 0 \<Longrightarrow> py_getitem xs i = Inr (xs ! nat (int (length xs) + i))"
  by (simp add: py_getitem_def)

lemma py_getitem_outside:
  "i < - int (length xs) \<or> int (length xs) \<le> i \<Longrightarrow> py_getitem xs i = Inl IndexError"
  by (auto simp: py_getitem_def)

lemma py_getitem_Inr: "py_getitem xs i = Inr y \<Longrightarrow> y \<in> set xs \<and> - int (length xs) \<le> i \<and> i < int (length xs)"
  by (auto simp: py_getitem_def Let_def split: if_splits)

lemma py_getitem_Inl:
  "py_getitem xs i = Inl e \<Longrightarrow> e = IndexError \<and> (i < - int (length xs) \<or> int (length xs) \<le> i)"
  by (auto simp: py_getitem_def Let_def split: if_splits)

lemma py_setitem_nonneg:
  "0 \<le> i \<Longrightarrow> i < int (length xs) \<Longrightarrow> py_setitem xs i x = Inr (xs[nat i := x])"
  by (simp add: py_setitem_def)

lemma py_setitem_full:
  "int (length xs) \<le> i \<Longrightarrow> py_setitem xs i x = Inl IndexError"
  by (simp add: py_setitem_def)

subsection \<open>The invariant of the tree object\<close>

lemma tree_ok_member:
  "tree_ok n t \<Longrightarrow> rt \<in> set (versions t) \<Longrightarrow> shaped rt \<and> left rt = 0 \<and> right rt = n - 1"
  by (simp add: tree_ok_def list_all_iff)

lemma PST_init_ok: "PST_init depth n = Inr t \<Longrightarrow> tree_ok n t \<and> length (versions t) = 1"
proof -
  assume "PST_init depth n = Inr t"
  then obtain rt where rt: "priv_build depth 0 (n - 1) = Inr rt"
    and t: "t = \<lparr>pst_size = n, versions = [rt]\<rparr>"
    by (auto simp: PST_init_def split: sum.splits)
  from priv_build_Inr [OF rt] have "shaped rt" "left rt = 0" "right rt = n - 1" by simp_all
  moreover from this have "1 \<le> n" using shaped_le [of rt] by simp
  ultimately show ?thesis using t by (simp add: tree_ok_def)
qed

lemma update_Inl: "py_getitem (versions t) ver = Inl e \<Longrightarrow> update t ver idx x = (Inl e, t)"
  by (simp add: update_def)

lemma update_tree_ok:
  assumes ok: "tree_ok n t" and rt: "py_getitem (versions t) ver = Inr rt"
  shows "\<exists>rt'. update t ver idx x =
                 (Inr (int (length (versions t))), t\<lparr>versions := versions t @ [rt']\<rparr>) \<and>
               shaped rt' \<and> left rt' = 0 \<and> right rt' = n - 1 \<and>
               leaves rt' = map (set_leaf (max 0 (min (n - 1) idx)) x) (leaves rt)"
proof -
  have m: "rt \<in> set (versions t)" using py_getitem_Inr [OF rt] by simp
  note s = tree_ok_member [OF ok m]
  from priv_update_shaped [of rt idx x] s obtain rt' where
    "priv_update (Some rt) idx x = Inr rt'" "shaped rt'" "left rt' = 0" "right rt' = n - 1"
    "leaves rt' = map (set_leaf (max 0 (min (n - 1) idx)) x) (leaves rt)"
    by auto
  then show ?thesis using rt by (auto simp: update_def Let_def)
qed

lemma update_cases:
  assumes ok: "tree_ok n t"
  shows "(update t ver idx x = (Inl IndexError, t) \<and>
           (ver < - int (length (versions t)) \<or> int (length (versions t)) \<le> ver)) \<or>
         (\<exists>rt rt'. py_getitem (versions t) ver = Inr rt \<and>
            update t ver idx x =
              (Inr (int (length (versions t))), t\<lparr>versions := versions t @ [rt']\<rparr>) \<and>
            shaped rt' \<and> left rt' = 0 \<and> right rt' = n - 1 \<and>
            leaves rt' = map (set_leaf (max 0 (min (n - 1) idx)) x) (leaves rt))"
proof (cases "py_getitem (versions t) ver")
  case (Inl e)
  with py_getitem_Inl [OF Inl] update_Inl [OF Inl] show ?thesis by simp
next
  case (Inr rt)
  with update_tree_ok [OF ok Inr] show ?thesis by simp
qed

lemma update_preserves: "tree_ok n t \<Longrightarrow> tree_ok n (snd (update t ver idx x))"
  using update_cases [of n t ver idx x] by (auto simp: tree_ok_def)

lemma updates_preserve: "tree_ok n t \<Longrightarrow> tree_ok n (updates t calls)"
  by (induction t calls rule: updates.induct) (auto intro: update_preserves)

lemma pst_after_ok: "pst_after depth n calls = Inr t \<Longrightarrow> tree_ok n t"
  by (auto simp: pst_after_def split: sum.splits dest: PST_init_ok intro: updates_preserve)

lemma query_tree_ok:
  assumes "tree_ok n t" "0 \<le> v" "v < int (length (versions t))"
  shows "query t v l r = Inr (leaves_in (versions t ! nat v) l r)"
proof -
  have "versions t ! nat v \<in> set (versions t)" using assms(2,3) by simp
  from tree_ok_member [OF assms(1) this] show ?thesis
    using assms(2,3) by (simp add: query_def py_getitem_nonneg priv_query_shaped)
qed

lemma update_then_point_query:
  assumes ok: "tree_ok n t" and v: "- int (length (versions t)) \<le> ver" "ver < int (length (versions t))"
  shows "\<exists>rt'. update t ver idx x =
                 (Inr (int (length (versions t))), t\<lparr>versions := versions t @ [rt']\<rparr>) \<and>
              query (t\<lparr>versions := versions t @ [rt']\<rparr>) (int (length (versions t)))
                (max 0 (min (n - 1) idx)) (max 0 (min (n - 1) idx)) = Inr [x]"
proof -
  let ?c = "max 0 (min (n - 1) idx)"
  from update_cases [OF ok, of ver idx x] v obtain rt rt' where
    rt: "py_getitem (versions t) ver = Inr rt" and
    u: "update t ver idx x = (Inr (int (length (versions t))), t\<lparr>versions := versions t @ [rt']\<rparr>)" and
    s: "shaped rt'" "left rt' = 0" "right rt' = n - 1" and
    l: "leaves rt' = map (set_leaf ?c x) (leaves rt)"
    by auto
  have m: "rt \<in> set (versions t)" using py_getitem_Inr [OF rt] by simp
  note srt = tree_ok_member [OF ok m]
  have n: "1 \<le> n" using ok by (simp add: tree_ok_def)
  have "leaves_in rt' ?c ?c = [x]"
    using srt n by (intro leaves_in_set_same [OF _ l]) auto
  then have "query (t\<lparr>versions := versions t @ [rt']\<rparr>) (int (length (versions t))) ?c ?c = Inr [x]"
    using s by (simp add: query_def py_getitem_def priv_query_shaped)
  with u show ?thesis by blast
qed

lemma query_after_update:
  assumes "update t ver idx x = (out, t')" "0 \<le> v" "v < int (length (versions t))"
  shows "query t' v l r = query t v l r"
proof -
  have "t' = t \<or> (\<exists>rt'. t' = t\<lparr>versions := versions t @ [rt']\<rparr>)"
    using assms(1) by (auto simp: update_def Let_def split: sum.splits)
  then show ?thesis
    using assms(2,3) by (auto simp: query_def py_getitem_def nth_append)
qed

subsection \<open>The versions of a tree object as lists of values\<close>

lemma py_getitem_map:
  "py_getitem (map f xs) i = (case py_getitem xs i of Inl e \<Rightarrow> Inl e | Inr y \<Rightarrow> Inr (f y))"
  by (auto simp: py_getitem_def Let_def)

lemma length_values_of:
  assumes "shaped t" "left t = 0" "right t = n - 1"
  shows "length (values_of t) = nat n" "length (leaves t) = nat n"
proof -
  have f: "map fst (leaves t) = [0..n - 1]" using leaves_fst [OF assms(1)] assms(2,3) by simp
  have n: "1 \<le> n" using shaped_le [OF assms(1)] assms(2,3) by simp
  show "length (leaves t) = nat n"
    using arg_cong [OF f, of length] n by simp
  then show "length (values_of t) = nat n" by (simp add: values_of_def)
qed

lemma nth_leaves:
  assumes "shaped t" "left t = 0" "right t = n - 1" "k < nat n"
  shows "leaves t ! k = (int k, values_of t ! k)"
proof -
  have f: "map fst (leaves t) = [0..n - 1]" using leaves_fst [OF assms(1)] assms(2,3) by simp
  have len: "k < length (leaves t)" using length_values_of(2) [OF assms(1-3)] assms(4) by simp
  have "fst (leaves t ! k) = map fst (leaves t) ! k" using len by simp
  also have "\<dots> = int k" unfolding f using assms(4) by (simp add: nth_upto)
  finally have "fst (leaves t ! k) = int k" .
  moreover have "snd (leaves t ! k) = values_of t ! k" using len by (simp add: values_of_def)
  ultimately show ?thesis by (simp add: prod_eq_iff)
qed

lemma leaves_as_values:
  assumes "shaped t" "left t = 0" "right t = n - 1"
  shows "leaves t = map (\<lambda>i. (i, values_of t ! nat i)) [0..n - 1]"
proof (rule nth_equalityI)
  have n: "1 \<le> n" using shaped_le [OF assms(1)] assms(2,3) by simp
  show "length (leaves t) = length (map (\<lambda>i. (i, values_of t ! nat i)) [0..n - 1])"
    using length_values_of(2) [OF assms] n by simp
  fix k assume "k < length (leaves t)"
  then have k: "k < nat n" using length_values_of(2) [OF assms] by simp
  then have "map (\<lambda>i. (i, values_of t ! nat i)) [0..n - 1] ! k = (int k, values_of t ! k)"
    by (simp add: nth_upto)
  with nth_leaves [OF assms k]
  show "leaves t ! k = map (\<lambda>i. (i, values_of t ! nat i)) [0..n - 1] ! k" by simp
qed

lemma leaves_in_values:
  assumes "shaped t" "left t = 0" "right t = n - 1"
  shows "leaves_in t l r = map (\<lambda>i. values_of t ! nat i) [max 0 l..min (n - 1) r]"
proof -
  have "leaves_in t l r =
        map snd (filter (\<lambda>p. l \<le> fst p \<and> fst p \<le> r) (map (\<lambda>i. (i, values_of t ! nat i)) [0..n - 1]))"
    unfolding leaves_in_def by (subst leaves_as_values [OF assms]) (rule refl)
  also have "\<dots> = map (\<lambda>i. values_of t ! nat i) (filter (\<lambda>i. l \<le> i \<and> i \<le> r) [0..n - 1])"
    by (simp add: filter_map comp_def)
  finally show ?thesis by (simp add: filter_upto_range)
qed

lemma values_of_set_leaf:
  assumes "shaped t" "left t = 0" "right t = n - 1" "0 \<le> c" "c < n"
    and "leaves t' = map (set_leaf c x) (leaves t)"
  shows "values_of t' = (values_of t)[nat c := x]"
proof (rule nth_equalityI)
  note len = length_values_of [OF assms(1-3)]
  show "length (values_of t') = length ((values_of t)[nat c := x])"
    using len by (simp add: values_of_def assms(6))
  fix k assume "k < length (values_of t')"
  then have k: "k < nat n" using len by (simp add: values_of_def assms(6))
  have "values_of t' ! k = snd (set_leaf c x (leaves t ! k))"
    using k len(2) by (simp add: values_of_def assms(6))
  also have "\<dots> = snd (set_leaf c x (int k, values_of t ! k))"
    by (simp only: nth_leaves [OF assms(1-3) k])
  also have "\<dots> = (values_of t)[nat c := x] ! k"
    using k len(1) assms(4) by (auto simp: set_leaf_def nth_list_update)
  finally show "values_of t' ! k = (values_of t)[nat c := x] ! k" .
qed

lemma array_update_fail:
  "py_getitem vs ver = Inl e \<Longrightarrow> array_update vs (ver, idx, x) = vs"
  by (simp add: array_update_def)

lemma array_update_ok:
  "py_getitem vs ver = Inr a \<Longrightarrow>
   array_update vs (ver, idx, x) = vs @ [a[nat (max 0 (min (int (length a) - 1) idx)) := x]]"
  by (simp add: array_update_def)

lemma update_arrays:
  assumes ok: "tree_ok n t"
  shows "map values_of (versions (snd (update t ver idx x))) =
         array_update (map values_of (versions t)) (ver, idx, x)"
proof (cases "py_getitem (versions t) ver")
  case (Inl e)
  then have "py_getitem (map values_of (versions t)) ver = Inl e" by (simp add: py_getitem_map)
  from array_update_fail [OF this] update_Inl [OF Inl] show ?thesis by simp
next
  case (Inr rt)
  have n: "1 \<le> n" using ok by (simp add: tree_ok_def)
  have "rt \<in> set (versions t)" using py_getitem_Inr [OF Inr] by simp
  from tree_ok_member [OF ok this] have s: "shaped rt" "left rt = 0" "right rt = n - 1" by simp_all
  let ?c = "max 0 (min (n - 1) idx)"
  from update_tree_ok [OF ok Inr, of idx x] obtain rt' where
    u: "update t ver idx x =
          (Inr (int (length (versions t))), t\<lparr>versions := versions t @ [rt']\<rparr>)" and
    l: "leaves rt' = map (set_leaf ?c x) (leaves rt)"
    by blast
  have v: "values_of rt' = (values_of rt)[nat ?c := x]"
    using n by (intro values_of_set_leaf [OF s _ _ l]) simp_all
  have "py_getitem (map values_of (versions t)) ver = Inr (values_of rt)"
    using Inr by (simp add: py_getitem_map)
  from array_update_ok [OF this, of idx x] have
    "array_update (map values_of (versions t)) (ver, idx, x) =
       map values_of (versions t) @ [(values_of rt)[nat ?c := x]]"
    using length_values_of(1) [OF s] n by simp
  with u v show ?thesis by simp
qed

lemma updates_arrays:
  "tree_ok n t \<Longrightarrow>
   map values_of (versions (updates t calls)) = foldl array_update (map values_of (versions t)) calls"
proof (induction calls arbitrary: t)
  case Nil
  show ?case by simp
next
  case (Cons c calls)
  obtain ver idx x where c: "c = (ver, idx, x)" by (cases c)
  from Cons.IH [OF update_preserves [OF Cons.prems], of ver idx x]
    update_arrays [OF Cons.prems, of ver idx x]
  show ?case unfolding c by simp
qed

lemma pst_after_arrays:
  assumes "pst_after depth n calls = Inr t"
  shows "map values_of (versions t) = arrays_after n calls"
proof -
  from assms obtain t0 where t0: "PST_init depth n = Inr t0" and t: "t = updates t0 calls"
    by (auto simp: pst_after_def split: sum.splits)
  from t0 obtain rt where rt: "priv_build depth 0 (n - 1) = Inr rt" and v: "versions t0 = [rt]"
    by (auto simp: PST_init_def split: sum.splits)
  have n: "1 \<le> n" using PST_init_ok [OF t0] by (simp add: tree_ok_def)
  have "values_of rt = map (\<lambda>i. None) [0..n - 1]"
    using priv_build_Inr [OF rt] by (simp add: values_of_def comp_def)
  also have "\<dots> = replicate (nat n) None"
    using n by (simp add: map_replicate_const)
  finally have "map values_of (versions t0) = [replicate (nat n) None]" using v by simp
  with updates_arrays [of n t0 calls] PST_init_ok [OF t0] t show ?thesis
    by (simp add: arrays_after_def)
qed

lemma update_new_version:
  assumes ok: "tree_ok n t"
    and v: "- int (length (versions t)) \<le> ver" "ver < int (length (versions t))"
  shows "\<exists>rt'. update t ver idx x =
                 (Inr (int (length (versions t))), t\<lparr>versions := versions t @ [rt']\<rparr>) \<and>
           values_of rt' =
             (values_of (versions t !
                nat (if ver < 0 then int (length (versions t)) + ver else ver)))
             [nat (max 0 (min (n - 1) idx)) := x] \<and>
           (\<forall>l r. query (t\<lparr>versions := versions t @ [rt']\<rparr>) (int (length (versions t))) l r =
              Inr (map (\<lambda>i. values_of rt' ! nat i) [max 0 l..min (n - 1) r]))"
proof -
  let ?p = "versions t ! nat (if ver < 0 then int (length (versions t)) + ver else ver)"
  let ?c = "max 0 (min (n - 1) idx)"
  have g: "py_getitem (versions t) ver = Inr ?p"
    using v by (simp add: py_getitem_def Let_def)
  have n: "1 \<le> n" using ok by (simp add: tree_ok_def)
  have "?p \<in> set (versions t)" using py_getitem_Inr [OF g] by simp
  from tree_ok_member [OF ok this] have s: "shaped ?p" "left ?p = 0" "right ?p = n - 1"
    by simp_all
  from update_tree_ok [OF ok g, of idx x] obtain rt' where
    u: "update t ver idx x =
          (Inr (int (length (versions t))), t\<lparr>versions := versions t @ [rt']\<rparr>)" and
    s': "shaped rt'" "left rt' = 0" "right rt' = n - 1" and
    l: "leaves rt' = map (set_leaf ?c x) (leaves ?p)"
    by blast
  have val: "values_of rt' = (values_of ?p)[nat ?c := x]"
    using n by (intro values_of_set_leaf [OF s _ _ l]) simp_all
  have q: "query (t\<lparr>versions := versions t @ [rt']\<rparr>) (int (length (versions t))) l r =
      Inr (map (\<lambda>i. values_of rt' ! nat i) [max 0 l..min (n - 1) r])" for l r
    using s' by (simp add: query_def py_getitem_def priv_query_shaped leaves_in_values [OF s'])
  from u val q show ?thesis by blast
qed

subsection \<open>The invariant of the tracker\<close>

lemma FSBM_init_ok: "FSBM_init depth mx = Inr m \<Longrightarrow> fsbm_ok mx m \<and> next_idx m = 0"
proof -
  assume "FSBM_init depth mx = Inr m"
  then obtain t where t: "PST_init depth mx = Inr t"
    and m: "m = \<lparr>tree = t, branch_params = replicate (nat mx) None, current_version = 0, next_idx = 0\<rparr>"
    by (auto simp: FSBM_init_def split: sum.splits)
  from t obtain rt where rt: "priv_build depth 0 (mx - 1) = Inr rt" and v: "versions t = [rt]"
    by (auto simp: PST_init_def split: sum.splits)
  have "list_all (\<lambda>p. snd p = None) (leaves rt)"
    using priv_build_Inr [OF rt] by (simp add: list_all_iff)
  moreover have "list_all (\<lambda>p. fst p < 0 \<or> snd p = None) (leaves rt)"
    using priv_build_Inr [OF rt] by (simp add: list_all_iff)
  ultimately show ?thesis using PST_init_ok [OF t] m v by (simp add: fsbm_ok_def tree_ok_def)
qed

lemma add_branch_unfold:
  "add_branch m p r fv =
     (case py_setitem (branch_params m) (next_idx m) (Some (p, r)) of
        Inl e \<Rightarrow> (Inl e, m)
      | Inr bp \<Rightarrow>
         (case update (tree m) (from_version_of m fv) (next_idx m) r of
            (Inl e, t') \<Rightarrow> (Inl e, m\<lparr>branch_params := bp, tree := t'\<rparr>)
          | (Inr nv, t') \<Rightarrow>
              (Inr nv, m\<lparr>branch_params := bp, tree := t', next_idx := next_idx m + 1,
                         current_version := nv\<rparr>)))"
  by (cases fv) (simp_all add: add_branch_def from_version_of_def Let_def split: sum.splits prod.splits)

lemma add_branch_full:
  assumes "fsbm_ok mx m" "mx \<le> next_idx m"
  shows "add_branch m p r fv = (Inl IndexError, m)"
  using assms by (simp add: add_branch_unfold fsbm_ok_def py_setitem_full)

lemma add_branch_room:
  assumes ok: "fsbm_ok mx m" and room: "next_idx m < mx"
  shows "(add_branch m p r fv =
            (Inl IndexError,
             m\<lparr>branch_params := (branch_params m)[nat (next_idx m) := Some (p, r)]\<rparr>) \<and>
          (from_version_of m fv < - int (length (versions (tree m))) \<or>
           int (length (versions (tree m))) \<le> from_version_of m fv)) \<or>
         (\<exists>rt rt'. py_getitem (versions (tree m)) (from_version_of m fv) = Inr rt \<and>
            shaped rt' \<and> left rt' = 0 \<and> right rt' = mx - 1 \<and>
            leaves rt' = map (set_leaf (next_idx m) r) (leaves rt) \<and>
            add_branch m p r fv =
              (Inr (int (length (versions (tree m)))),
               m\<lparr>branch_params := (branch_params m)[nat (next_idx m) := Some (p, r)],
                 tree := (tree m)\<lparr>versions := versions (tree m) @ [rt']\<rparr>,
                 next_idx := next_idx m + 1,
                 current_version := int (length (versions (tree m)))\<rparr>))"
proof -
  have t: "tree_ok mx (tree m)" and i: "0 \<le> next_idx m" and
    len: "length (branch_params m) = nat mx"
    using ok by (simp_all add: fsbm_ok_def)
  have set: "py_setitem (branch_params m) (next_idx m) (Some (p, r)) =
      Inr ((branch_params m)[nat (next_idx m) := Some (p, r)])"
    using i room len by (intro py_setitem_nonneg) auto
  have c: "max 0 (min (mx - 1) (next_idx m)) = next_idx m" using i room by simp
  show ?thesis
  proof (cases "py_getitem (versions (tree m)) (from_version_of m fv)")
    case (Inl e)
    with py_getitem_Inl [OF Inl] update_Inl [OF Inl, of "next_idx m" r] set show ?thesis
      by (simp add: add_branch_unfold)
  next
    case (Inr rt)
    from update_tree_ok [OF t Inr, of "next_idx m" r] Inr set show ?thesis
      unfolding c by (auto simp: add_branch_unfold)
  qed
qed

lemma add_branch_preserves:
  assumes ok: "fsbm_ok mx m"
  shows "fsbm_ok mx (snd (add_branch m p r fv))"
proof (cases "mx \<le> next_idx m")
  case True
  with add_branch_full [OF ok True] ok show ?thesis by simp
next
  case False
  then have room: "next_idx m < mx" by simp
  from add_branch_room [OF ok room, of p r fv] show ?thesis
  proof (elim disjE exE)
    assume "add_branch m p r fv =
        (Inl IndexError, m\<lparr>branch_params := (branch_params m)[nat (next_idx m) := Some (p, r)]\<rparr>) \<and>
      (from_version_of m fv < - int (length (versions (tree m))) \<or>
       int (length (versions (tree m))) \<le> from_version_of m fv)"
    then show ?thesis using ok by (simp add: fsbm_ok_def)
  next
    fix rt rt'
    assume "py_getitem (versions (tree m)) (from_version_of m fv) = Inr rt \<and>
      shaped rt' \<and> left rt' = 0 \<and> right rt' = mx - 1 \<and>
      leaves rt' = map (set_leaf (next_idx m) r) (leaves rt) \<and>
      add_branch m p r fv =
              (Inr (int (length (versions (tree m)))),
               m\<lparr>branch_params := (branch_params m)[nat (next_idx m) := Some (p, r)],
                 tree := (tree m)\<lparr>versions := versions (tree m) @ [rt']\<rparr>,
                 next_idx := next_idx m + 1,
                 current_version := int (length (versions (tree m)))\<rparr>)"
    then have rt: "py_getitem (versions (tree m)) (from_version_of m fv) = Inr rt"
      and s: "shaped rt'" "left rt' = 0" "right rt' = mx - 1"
      and l: "leaves rt' = map (set_leaf (next_idx m) r) (leaves rt)"
      and a: "add_branch m p r fv =
              (Inr (int (length (versions (tree m)))),
               m\<lparr>branch_params := (branch_params m)[nat (next_idx m) := Some (p, r)],
                 tree := (tree m)\<lparr>versions := versions (tree m) @ [rt']\<rparr>,
                 next_idx := next_idx m + 1,
                 current_version := int (length (versions (tree m)))\<rparr>)"
      by simp_all
    have old: "list_all (\<lambda>rt. list_all (\<lambda>p. fst p < next_idx m \<or> snd p = None) (leaves rt))
       (versions (tree m))"
      using ok by (simp add: fsbm_ok_def)
    have mem: "rt \<in> set (versions (tree m))" using py_getitem_Inr [OF rt] by simp
    have new: "list_all (\<lambda>p. fst p < next_idx m + 1 \<or> snd p = None) (leaves rt')"
      using old mem unfolding l by (fastforce simp: list_all_iff set_leaf_def)
    have old': "list_all (\<lambda>rt. list_all (\<lambda>p. fst p < next_idx m + 1 \<or> snd p = None) (leaves rt))
       (versions (tree m))"
      using old by (fastforce simp: list_all_iff)
    show ?thesis
      using ok room s new old' unfolding a by (simp add: fsbm_ok_def tree_ok_def)
  qed
qed

lemma add_branches_preserve: "fsbm_ok mx m \<Longrightarrow> fsbm_ok mx (add_branches m calls)"
  by (induction m calls rule: add_branches.induct) (auto intro: add_branch_preserves)

lemma fsbm_after_ok: "fsbm_after depth mx calls = Inr m \<Longrightarrow> fsbm_ok mx m"
  by (auto simp: fsbm_after_def split: sum.splits dest: FSBM_init_ok intro: add_branches_preserve)

lemma leaves_in_point:
  assumes "shaped t" "left t \<le> j" "j \<le> right t"
  shows "\<exists>y. leaves_in t j j = [y] \<and> (j, y) \<in> set (leaves t)"
proof -
  have "length (leaves_in t j j) = 1"
    using length_leaves_in [OF assms(1), of j j] assms(2,3) by simp
  then obtain y where y: "leaves_in t j j = [y]"
    by (cases "leaves_in t j j") auto
  then have "y \<in> set (leaves_in t j j)" by simp
  then have "(j, y) \<in> set (leaves t)" by (auto simp: leaves_in_def)
  with y show ?thesis by blast
qed

lemma leaves_in_point_outside:
  assumes "shaped t" "j < left t \<or> right t < j"
  shows "leaves_in t j j = []"
  using length_leaves_in [OF assms(1), of j j] assms(2) by auto

lemma get_branch_result_root:
  assumes ok: "tree_ok mx (tree m)" and rt: "py_getitem (versions (tree m)) v = Inr rt"
  shows "get_branch_result m v j = py_getitem (leaves_in rt j j) 0"
proof -
  have "rt \<in> set (versions (tree m))" using py_getitem_Inr [OF rt] by simp
  from tree_ok_member [OF ok this] show ?thesis
    using rt by (simp add: get_branch_result_def query_def priv_query_shaped)
qed

lemma get_branch_result_range:
  assumes ok: "fsbm_ok mx m" and rt: "py_getitem (versions (tree m)) v = Inr rt"
  shows "(j < 0 \<or> mx \<le> j \<longrightarrow> get_branch_result m v j = Inl IndexError) \<and>
         (next_idx m \<le> j \<and> j < mx \<longrightarrow> get_branch_result m v j = Inr None) \<and>
         (0 \<le> j \<and> j < mx \<longrightarrow> (\<exists>y. get_branch_result m v j = Inr y \<and> (j, y) \<in> set (leaves rt)))"
proof -
  have t: "tree_ok mx (tree m)" using ok by (simp add: fsbm_ok_def)
  have mem: "rt \<in> set (versions (tree m))" using py_getitem_Inr [OF rt] by simp
  note s = tree_ok_member [OF t mem]
  note g = get_branch_result_root [OF t rt]
  have out: "get_branch_result m v j = Inl IndexError" if "j < 0 \<or> mx \<le> j"
    using leaves_in_point_outside [of rt j] s that by (auto simp: g py_getitem_def Let_def)
  have inside: "\<exists>y. get_branch_result m v j = Inr y \<and> (j, y) \<in> set (leaves rt)"
    if "0 \<le> j \<and> j < mx"
    using leaves_in_point [of rt j] s that by (auto simp: g py_getitem_def Let_def)
  have unalloc: "get_branch_result m v j = Inr None" if j: "next_idx m \<le> j \<and> j < mx"
  proof -
    have "0 \<le> j \<and> j < mx" using j ok by (simp add: fsbm_ok_def)
    from inside [OF this] obtain y where
      y: "get_branch_result m v j = Inr y" "(j, y) \<in> set (leaves rt)" by blast
    have "list_all (\<lambda>p. fst p < next_idx m \<or> snd p = None) (leaves rt)"
      using ok mem by (simp add: fsbm_ok_def list_all_iff)
    with y(2) j have "y = None" by (fastforce simp: list_all_iff)
    with y(1) show ?thesis by simp
  qed
  from out inside unalloc show ?thesis by blast
qed

lemma get_branch_result_version0:
  assumes ok: "fsbm_ok mx m" and j: "0 \<le> j" "j < mx"
  shows "get_branch_result m 0 j = Inr None"
proof -
  have ne: "versions (tree m) \<noteq> []" using ok by (simp add: fsbm_ok_def tree_ok_def)
  then have rt: "py_getitem (versions (tree m)) 0 = Inr (hd (versions (tree m)))"
    by (simp add: py_getitem_def hd_conv_nth)
  from get_branch_result_range [OF ok rt, of j] j obtain y where
    y: "get_branch_result m 0 j = Inr y" "(j, y) \<in> set (leaves (hd (versions (tree m))))" by blast
  have "list_all (\<lambda>p. snd p = None) (leaves (hd (versions (tree m))))"
    using ok by (simp add: fsbm_ok_def)
  with y(2) have "y = None" by (fastforce simp: list_all_iff)
  with y(1) show ?thesis by simp
qed

lemma get_branch_result_after_add:
  assumes ok: "fsbm_ok mx m" and a: "add_branch m p r fv = (Inr v', m')"
  shows "get_branch_result m' v' (next_idx m) = Inr r \<and>
         (j \<noteq> next_idx m \<longrightarrow>
            get_branch_result m' v' j = get_branch_result m (from_version_of m fv) j) \<and>
         (0 \<le> v \<and> v < int (length (versions (tree m))) \<longrightarrow>
            get_branch_result m' v j = get_branch_result m v j)"
proof -
  have t: "tree_ok mx (tree m)" using ok by (simp add: fsbm_ok_def)
  have room: "next_idx m < mx"
    using add_branch_full [OF ok, of p r fv] a by (cases "mx \<le> next_idx m") auto
  have i: "0 \<le> next_idx m" using ok by (simp add: fsbm_ok_def)
  from add_branch_room [OF ok room, of p r fv] a obtain rt rt' where
    rt: "py_getitem (versions (tree m)) (from_version_of m fv) = Inr rt" and
    s: "shaped rt'" "left rt' = 0" "right rt' = mx - 1" and
    l: "leaves rt' = map (set_leaf (next_idx m) r) (leaves rt)" and
    v': "v' = int (length (versions (tree m)))" and
    m': "tree m' = (tree m)\<lparr>versions := versions (tree m) @ [rt']\<rparr>"
    by auto
  have mem: "rt \<in> set (versions (tree m))" using py_getitem_Inr [OF rt] by simp
  note srt = tree_ok_member [OF t mem]
  have new: "get_branch_result m' v' j' = py_getitem (leaves_in rt' j' j') 0" for j'
    using s by (simp add: get_branch_result_def query_def py_getitem_def v' m' priv_query_shaped)
  have 1: "get_branch_result m' v' (next_idx m) = Inr r"
    using leaves_in_set_same [OF _ l] srt i room by (simp add: new py_getitem_def)
  have 2: "get_branch_result m' v' j = get_branch_result m (from_version_of m fv) j"
    if "j \<noteq> next_idx m"
  proof -
    have "next_idx m < j \<or> j < next_idx m" using that by linarith
    from leaves_in_set_other [OF l this] show ?thesis
      by (simp add: new get_branch_result_root [OF t rt])
  qed
  have 3: "get_branch_result m' v j = get_branch_result m v j"
    if "0 \<le> v \<and> v < int (length (versions (tree m)))"
    using that by (auto simp: get_branch_result_def query_def py_getitem_def m' nth_append)
  from 1 2 3 show ?thesis by blast
qed

subsection \<open>Updates in the store\<close>

lemma heap_closedD: "heap_closed h \<Longrightarrow> a < length h \<Longrightarrow> c \<in> set (children (h ! a)) \<Longrightarrow> c < a"
  by (auto simp: heap_closed_def list_all_iff)

lemma heap_closed_append:
  assumes "heap_closed h" "list_all (\<lambda>c. c < length h) (children nd)"
  shows "heap_closed (h @ [nd])"
  using assms by (auto simp: heap_closed_def list_all_iff nth_append)

lemma reach_bound:
  assumes "heap_closed h" "reach h a b"
  shows "b \<le> a \<and> a < length h"
  using assms(2)
proof (induction rule: reach.induct)
  case self
  then show ?case by simp
next
  case (step b c)
  then have "b < length h" by simp
  from heap_closedD [OF assms(1) this step.hyps(2)] step.IH show ?case by simp
qed

lemma reach_append_iff:
  assumes "heap_closed h" "a < length h"
  shows "reach (h @ ns) a b \<longleftrightarrow> reach h a b"
proof
  assume "reach (h @ ns) a b"
  then show "reach h a b"
  proof (induction rule: reach.induct)
    case self
    show ?case using assms(2) by (rule reach.self)
  next
    case (step b c)
    from reach_bound [OF assms(1) step.IH] assms(2) have "b < length h" by simp
    with step.hyps(2) have "c \<in> set (children (h ! b))" by (simp add: nth_append)
    with step.IH show ?case by (rule reach.step)
  qed
next
  assume "reach h a b"
  then show "reach (h @ ns) a b"
  proof (induction rule: reach.induct)
    case self
    show ?case using assms(2) by (intro reach.self) simp
  next
    case (step b c)
    from reach_bound [OF assms(1) step.hyps(1)] assms(2) have "b < length h" by simp
    with step.hyps(2) have "c \<in> set (children ((h @ ns) ! b))" by (simp add: nth_append)
    with step.IH show ?case by (rule reach.step)
  qed
qed

lemma reach_child:
  assumes "a < length h" "c \<in> set (children (h ! a))" "reach h c b"
  shows "reach h a b"
  using assms(3)
proof (induction rule: reach.induct)
  case self
  show ?case using reach.step [OF reach.self [OF assms(1)] assms(2)] .
next
  case (step b c')
  then show ?case by (blast intro: reach.step)
qed

lemma reach_first:
  assumes "reach h a b"
  shows "b = a \<or> (\<exists>c \<in> set (children (h ! a)). reach h c b) \<or>
         (\<exists>c \<in> set (children (h ! a)). length h \<le> c)"
  using assms
proof (induction rule: reach.induct)
  case self
  show ?case by simp
next
  case (step b c)
  show ?case
  proof (cases "\<exists>c \<in> set (children (h ! a)). length h \<le> c")
    case True
    then show ?thesis by simp
  next
    case False
    from step.IH False consider "b = a" | c' where "c' \<in> set (children (h ! a))" "reach h c' b"
      by blast
    then show ?thesis
    proof cases
      case 1
      with step.hyps(2) False have "c \<in> set (children (h ! a))" "c < length h" by auto
      then show ?thesis using reach.self [of c h] by blast
    next
      case 2
      then show ?thesis using step.hyps(2) by (blast intro: reach.step)
    qed
  qed
qed

lemma repr_append: "repr h a t \<Longrightarrow> repr (h @ ns) a t"
proof (induction t arbitrary: a)
  case (Node nl nr v lc rc)
  have a: "a < length h" using Node.prems by simp
  have l: "repr (h @ ns) al lsub" if "lc = Some lsub" "o_left_child (h ! a) = Some al" for lsub al
    using Node.IH(1) [of lsub al] Node.prems that by simp
  have r: "repr (h @ ns) ar rsub" if "rc = Some rsub" "o_right_child (h ! a) = Some ar" for rsub ar
    using Node.IH(2) [of rsub ar] Node.prems that by simp
  show ?case
    using Node.prems a l r by (auto simp: nth_append split: option.splits)
qed

lemma repr_valid: "repr h a t \<Longrightarrow> a < length h"
  by (cases t) simp

lemma heap_build_repr:
  fixes h :: "'v heap"
  assumes "heap_closed h" "heap_build depth h l r = Inr (h', a)"
  shows "\<exists>ns t. h' = h @ ns \<and> priv_build depth l r = Inr t \<and> heap_closed h' \<and> repr h' a t"
  using assms
proof (induction depth arbitrary: h l r h' a)
  case 0
  then show ?case by simp
next
  case (Suc depth)
  show ?case
  proof (cases "l = r")
    case True
    let ?nd = "\<lparr>o_left = l, o_right = r, o_value = None, o_left_child = None,
               o_right_child = None\<rparr> :: 'v obj"
    from Suc.prems(2) True have h': "h' = h @ [?nd]" "a = length h"
      by (simp_all add: new_node_def)
    have "heap_closed (h @ [?nd])"
      by (rule heap_closed_append [OF Suc.prems(1)]) (simp add: children_def)
    moreover have "repr (h @ [?nd]) (length h) (Node l r None None None)" by simp
    ultimately show ?thesis using True h' by auto
  next
    case False
    let ?m = "(l + r) div 2"
    from Suc.prems(2) False obtain h1 lc h2 rc where
      b1: "heap_build depth h l ?m = Inr (h1, lc)" and
      b2: "heap_build depth h1 (?m + 1) r = Inr (h2, rc)" and
      h': "h' = h2 @ [\<lparr>o_left = l, o_right = r, o_value = None, o_left_child = Some lc,
                      o_right_child = Some rc\<rparr>]" "a = length h2"
      by (auto simp: Let_def new_node_def split: sum.splits prod.splits)
    let ?nd = "\<lparr>o_left = l, o_right = r, o_value = None, o_left_child = Some lc,
               o_right_child = Some rc\<rparr> :: 'v obj"
    from Suc.IH [OF Suc.prems(1) b1] obtain ns1 t1 where
      1: "h1 = h @ ns1" "priv_build depth l ?m = Inr t1" "heap_closed h1" "repr h1 lc t1"
      by blast
    from Suc.IH [OF 1(3) b2] obtain ns2 t2 where
      2: "h2 = h1 @ ns2" "priv_build depth (?m + 1) r = Inr t2" "heap_closed h2" "repr h2 rc t2"
      by blast
    have lc: "lc < length h2" using repr_valid [OF 1(4)] 2(1) by simp
    have rc: "rc < length h2" using repr_valid [OF 2(4)] .
    have c: "heap_closed (h2 @ [?nd])"
      by (rule heap_closed_append [OF 2(3)]) (simp add: children_def lc rc)
    have rl: "repr (h2 @ [?nd]) lc t1"
      using repr_append [OF repr_append [OF 1(4), of ns2], of "[?nd]"] 2(1) by simp
    have rr: "repr (h2 @ [?nd]) rc t2" by (rule repr_append [OF 2(4)])
    have r: "repr (h2 @ [?nd]) (length h2) (Node l r None (Some t1) (Some t2))"
      using rl rr by simp
    have p: "priv_build (Suc depth) l r = Inr (Node l r None (Some t1) (Some t2))"
      using False 1(2) 2(2) by (simp add: Let_def)
    have "h' = h @ (ns1 @ ns2 @ [?nd])" using h'(1) 1(1) 2(1) by simp
    with c r p h' show ?thesis by blast
  qed
qed

lemma children_simps:
  "children \<lparr>o_left = l, o_right = r, o_value = v, o_left_child = lc, o_right_child = rc\<rparr> =
     (case lc of None \<Rightarrow> [] | Some c \<Rightarrow> [c]) @ (case rc of None \<Rightarrow> [] | Some c \<Rightarrow> [c])"
  by (simp add: children_def)

lemma path_len_pos: "0 < path_len t idx"
  by (cases t) simp

text \<open>One more object at the end of a store: what the new object reaches.\<close>

lemma reach_top:
  assumes "reach (h @ [nd]) (length h) b"
  shows "b = length h \<or> (\<exists>c \<in> set (children nd). reach (h @ [nd]) c b) \<or>
         (\<exists>c \<in> set (children nd). length h < c)"
proof -
  have k: "children ((h @ [nd]) ! length h) = children nd" by simp
  have "length (h @ [nd]) \<le> c \<Longrightarrow> length h < c" for c by simp
  with reach_first [OF assms] show ?thesis unfolding k by blast
qed

lemma heap_update_leaf:
  assumes a: "a < length h" and leaf: "o_left (h ! a) = o_right (h ! a)"
  shows "heap_update (Suc d) h (Some a) idx x =
           Inr (h @ [\<lparr>o_left = o_left (h ! a), o_right = o_right (h ! a), o_value = x,
                      o_left_child = None, o_right_child = None\<rparr>], length h)"
  using a leaf by (simp add: new_node_def Let_def)

lemma heap_update_left:
  assumes a: "a < length h" and inner: "o_left (h ! a) \<noteq> o_right (h ! a)"
    and idx: "idx \<le> (o_left (h ! a) + o_right (h ! a)) div 2"
    and rec: "heap_update d h (o_left_child (h ! a)) idx x = Inr (h', c')"
  shows "heap_update (Suc d) h (Some a) idx x =
           Inr (h' @ [\<lparr>o_left = o_left (h ! a), o_right = o_right (h ! a),
                       o_value = o_value (h ! a), o_left_child = Some c',
                       o_right_child = o_right_child (h ! a)\<rparr>], length h')"
  using a inner idx rec by (simp add: new_node_def Let_def)

lemma heap_update_right:
  assumes a: "a < length h" and inner: "o_left (h ! a) \<noteq> o_right (h ! a)"
    and idx: "\<not> idx \<le> (o_left (h ! a) + o_right (h ! a)) div 2"
    and rec: "heap_update d h (o_right_child (h ! a)) idx x = Inr (h', c')"
  shows "heap_update (Suc d) h (Some a) idx x =
           Inr (h' @ [\<lparr>o_left = o_left (h ! a), o_right = o_right (h ! a),
                       o_value = o_value (h ! a), o_left_child = o_left_child (h ! a),
                       o_right_child = Some c'\<rparr>], length h')"
  using a inner idx rec by (simp add: new_node_def Let_def)

text \<open>A new parent over an updated child.\<close>

lemma new_parent:
  fixes h :: "'v heap"
  assumes cl: "heap_closed h" and a: "a < length h"
    and c: "c \<in> set (children (h ! a))" and o: "other \<subseteq> set (children (h ! a))"
    and ns: "ns \<noteq> []" and cl1: "heap_closed (h @ ns)"
    and sub: "\<forall>b. reach (h @ ns) (length h + length ns - 1) b \<longrightarrow> length h \<le> b \<or> reach h c b"
    and new: "\<forall>b. length h \<le> b \<and> b < length h + length ns \<longrightarrow>
                 reach (h @ ns) (length h + length ns - 1) b"
    and kids: "set (children nd) = insert (length h + length ns - 1) other"
  shows "heap_closed (h @ ns @ [nd]) \<and>
         (\<forall>b. reach (h @ ns @ [nd]) (length h + length (ns @ [nd]) - 1) b \<longrightarrow>
              length h \<le> b \<or> reach h a b) \<and>
         (\<forall>b. length h \<le> b \<and> b < length h + length (ns @ [nd]) \<longrightarrow>
              reach (h @ ns @ [nd]) (length h + length (ns @ [nd]) - 1) b)"
proof -
  let ?c' = "length h + length ns - 1"
  let ?h1 = "h @ ns"
  let ?h2 = "(h @ ns) @ [nd]"
  have top: "length h + length (ns @ [nd]) - 1 = length ?h1" by simp
  have c': "?c' < length ?h1" using ns by (cases ns) simp_all
  have old: "k < a" if "k \<in> other" for k
    using heap_closedD [OF cl a] o that by blast
  have old_len: "k < length h" if "k \<in> other" for k using old [OF that] a by simp
  have old_len1: "k < length ?h1" if "k \<in> other" for k using old_len [OF that] by simp
  have "list_all (\<lambda>k. k < length ?h1) (children nd)"
    unfolding list_all_iff kids using c' old_len1 by blast
  from heap_closed_append [OF cl1 this] have cl2: "heap_closed ?h2" .
  have sub2: "length h \<le> b \<or> reach h a b" if r: "reach ?h2 (length ?h1) b" for b
  proof -
    from reach_top [OF r] consider "b = length ?h1"
      | k where "k \<in> set (children nd)" "reach ?h2 k b"
      | k where "k \<in> set (children nd)" "length ?h1 < k"
      by blast
    then show ?thesis
    proof cases
      case 1
      then show ?thesis by simp
    next
      case 2
      show ?thesis
      proof (cases "k = ?c'")
        case True
        with 2(2) have "reach ?h1 ?c' b" using reach_append_iff [OF cl1 c'] by simp
        with sub have "length h \<le> b \<or> reach h c b" by blast
        then show ?thesis using reach_child [OF a c] by blast
      next
        case False
        with 2(1) kids have k: "k \<in> other" by auto
        have "reach (h @ (ns @ [nd])) k b" using 2(2) by simp
        then have "reach h k b" using reach_append_iff [OF cl old_len [OF k]] by blast
        moreover have "k \<in> set (children (h ! a))" using k o by blast
        ultimately show ?thesis using reach_child [OF a] by blast
      qed
    next
      case 3
      with kids c' old_len show ?thesis by force
    qed
  qed
  have new2: "reach ?h2 (length ?h1) b" if b: "length h \<le> b \<and> b < length h + length (ns @ [nd])" for b
  proof (cases "b = length ?h1")
    case True
    show ?thesis unfolding True by (rule reach.self) simp
  next
    case False
    with b have "length h \<le> b \<and> b < length h + length ns" by simp
    with new have "reach ?h1 ?c' b" by blast
    then have "reach ?h2 ?c' b" using reach_append_iff [OF cl1 c'] by blast
    moreover have "?c' \<in> set (children (?h2 ! length ?h1))" using kids by simp
    ultimately show ?thesis by (intro reach_child [of "length ?h1" ?h2 ?c' b]) simp_all
  qed
  from cl2 sub2 new2 show ?thesis unfolding top by simp
qed

lemma heap_update_repr:
  fixes h :: "'v heap"
  assumes cl: "heap_closed h" and sh: "shaped t" and rp: "repr h a t"
  shows "\<exists>ns t'. priv_update (Some t) idx x = Inr t' \<and> length ns = path_len t idx \<and>
     (\<forall>d. path_len t idx \<le> d \<longrightarrow>
        heap_update d h (Some a) idx x = Inr (h @ ns, length h + length ns - 1)) \<and>
     repr (h @ ns) (length h + length ns - 1) t' \<and>
     heap_closed (h @ ns) \<and>
     (\<forall>b. reach (h @ ns) (length h + length ns - 1) b \<longrightarrow> length h \<le> b \<or> reach h a b) \<and>
     (\<forall>b. length h \<le> b \<and> b < length h + length ns \<longrightarrow>
        reach (h @ ns) (length h + length ns - 1) b)"
  using sh rp
proof (induction t arbitrary: a)
  case (Node nl nr v lc rc)
  have a: "a < length h" and f: "o_left (h ! a) = nl" "o_right (h ! a) = nr" "o_value (h ! a) = v"
    using Node.prems(2) by simp_all
  show ?case
  proof (cases "nl = nr")
    case True
    let ?nd = "\<lparr>o_left = nl, o_right = nr, o_value = x, o_left_child = None,
               o_right_child = None\<rparr> :: 'v obj"
    have u: "heap_update d h (Some a) idx x = Inr (h @ [?nd], length h)" if "1 \<le> d" for d
    proof -
      from that obtain d' where "d = Suc d'" by (cases d) auto
      then show ?thesis using heap_update_leaf [OF a, of d' idx x] True f by simp
    qed
    have k: "children ?nd = []" by (simp add: children_def)
    have c: "heap_closed (h @ [?nd])" by (rule heap_closed_append [OF cl]) (simp add: k)
    have r: "b = length h" if "reach (h @ [?nd]) (length h) b" for b
      using reach_top [OF that] by (simp add: k)
    have n: "reach (h @ [?nd]) (length h) (length h)" by (rule reach.self) simp
    have p: "repr (h @ [?nd]) (length h) (Node nl nr x None None)" by simp
    show ?thesis
      apply (rule exI [of _ "[?nd]"], rule exI [of _ "Node nl nr x None None"])
      using True u c r n p by (auto simp: le_less_Suc_eq)
  next
    case False
    let ?m = "(nl + nr) div 2"
    from False Node.prems(1) obtain lsub rsub where
      sub: "lc = Some lsub" "rc = Some rsub" and s: "shaped lsub" "shaped rsub"
      by (auto split: option.splits)
    from Node.prems(2) sub obtain al ar where
      ad: "o_left_child (h ! a) = Some al" "o_right_child (h ! a) = Some ar" and
      rs: "repr h al lsub" "repr h ar rsub"
      by (auto split: option.splits)
    have kids: "set (children (h ! a)) = {al, ar}" using ad by (auto simp: children_def)
    have inner: "o_left (h ! a) \<noteq> o_right (h ! a)" using False f by simp
    show ?thesis
    proof (cases "idx \<le> ?m")
      case True
      from Node.IH(1) [of lsub al, OF _ s(1) rs(1)] sub obtain ns1 t1 where
        p1: "priv_update (Some lsub) idx x = Inr t1" and
        l1: "length ns1 = path_len lsub idx" and
        u1: "\<And>d. path_len lsub idx \<le> d \<Longrightarrow>
               heap_update d h (Some al) idx x = Inr (h @ ns1, length h + length ns1 - 1)" and
        r1: "repr (h @ ns1) (length h + length ns1 - 1) t1" and
        c1: "heap_closed (h @ ns1)" and
        s1: "\<forall>b. reach (h @ ns1) (length h + length ns1 - 1) b \<longrightarrow> length h \<le> b \<or> reach h al b" and
        n1: "\<forall>b. length h \<le> b \<and> b < length h + length ns1 \<longrightarrow>
               reach (h @ ns1) (length h + length ns1 - 1) b"
        by auto
      let ?c = "length h + length ns1 - 1"
      let ?nd = "\<lparr>o_left = nl, o_right = nr, o_value = v, o_left_child = Some ?c,
                 o_right_child = Some ar\<rparr> :: 'v obj"
      have ne: "ns1 \<noteq> []" using l1 path_len_pos [of lsub idx] by auto
      have top: "length h + length (ns1 @ [?nd]) - 1 = length (h @ ns1)" by simp
      have pl: "path_len (Node nl nr v lc rc) idx = Suc (path_len lsub idx)"
        using False True sub by simp
      have u: "heap_update d h (Some a) idx x = Inr (h @ ns1 @ [?nd], length (h @ ns1))"
        if "Suc (path_len lsub idx) \<le> d" for d
      proof -
        from that obtain d' where d: "d = Suc d'" "path_len lsub idx \<le> d'" by (cases d) auto
        have "heap_update d' h (o_left_child (h ! a)) idx x = Inr (h @ ns1, ?c)"
          unfolding ad by (rule u1 [OF d(2)])
        from heap_update_left [OF a inner _ this] True show ?thesis
          unfolding d(1) by (simp add: f ad)
      qed
      have p: "priv_update (Some (Node nl nr v lc rc)) idx x = Inr (Node nl nr v (Some t1) rc)"
        using False True sub p1 by (simp add: Let_def)
      have r: "repr (h @ ns1 @ [?nd]) (length (h @ ns1)) (Node nl nr v (Some t1) rc)"
        using repr_append [OF r1, of "[?nd]"] repr_append [OF rs(2), of "ns1 @ [?nd]"] sub
        by (simp add: nth_append)
      have k: "set (children ?nd) = insert ?c {ar}" by (auto simp: children_def)
      have "al \<in> set (children (h ! a))" "{ar} \<subseteq> set (children (h ! a))" using kids by simp_all
      from new_parent [OF cl a this ne c1 s1 n1 k] u p r l1 pl show ?thesis
        apply (intro exI [of _ "ns1 @ [?nd]"] exI [of _ "Node nl nr v (Some t1) rc"])
        unfolding top by simp
    next
      case right: False
      from Node.IH(2) [of rsub ar, OF _ s(2) rs(2)] sub obtain ns1 t1 where
        p1: "priv_update (Some rsub) idx x = Inr t1" and
        l1: "length ns1 = path_len rsub idx" and
        u1: "\<And>d. path_len rsub idx \<le> d \<Longrightarrow>
               heap_update d h (Some ar) idx x = Inr (h @ ns1, length h + length ns1 - 1)" and
        r1: "repr (h @ ns1) (length h + length ns1 - 1) t1" and
        c1: "heap_closed (h @ ns1)" and
        s1: "\<forall>b. reach (h @ ns1) (length h + length ns1 - 1) b \<longrightarrow> length h \<le> b \<or> reach h ar b" and
        n1: "\<forall>b. length h \<le> b \<and> b < length h + length ns1 \<longrightarrow>
               reach (h @ ns1) (length h + length ns1 - 1) b"
        by auto
      let ?c = "length h + length ns1 - 1"
      let ?nd = "\<lparr>o_left = nl, o_right = nr, o_value = v, o_left_child = Some al,
                 o_right_child = Some ?c\<rparr> :: 'v obj"
      have ne: "ns1 \<noteq> []" using l1 path_len_pos [of rsub idx] by auto
      have top: "length h + length (ns1 @ [?nd]) - 1 = length (h @ ns1)" by simp
      have pl: "path_len (Node nl nr v lc rc) idx = Suc (path_len rsub idx)"
        using False right sub by simp
      have u: "heap_update d h (Some a) idx x = Inr (h @ ns1 @ [?nd], length (h @ ns1))"
        if "Suc (path_len rsub idx) \<le> d" for d
      proof -
        from that obtain d' where d: "d = Suc d'" "path_len rsub idx \<le> d'" by (cases d) auto
        have "heap_update d' h (o_right_child (h ! a)) idx x = Inr (h @ ns1, ?c)"
          unfolding ad by (rule u1 [OF d(2)])
        from heap_update_right [OF a inner _ this] right show ?thesis
          unfolding d(1) by (simp add: f ad)
      qed
      have p: "priv_update (Some (Node nl nr v lc rc)) idx x = Inr (Node nl nr v lc (Some t1))"
        using False right sub p1 by (simp add: Let_def)
      have r: "repr (h @ ns1 @ [?nd]) (length (h @ ns1)) (Node nl nr v lc (Some t1))"
        using repr_append [OF r1, of "[?nd]"] repr_append [OF rs(1), of "ns1 @ [?nd]"] sub
        by (simp add: nth_append)
      have k: "set (children ?nd) = insert ?c {al}" by (auto simp: children_def)
      have "ar \<in> set (children (h ! a))" "{al} \<subseteq> set (children (h ! a))" using kids by simp_all
      from new_parent [OF cl a this ne c1 s1 n1 k] u p r l1 pl show ?thesis
        apply (intro exI [of _ "ns1 @ [?nd]"] exI [of _ "Node nl nr v lc (Some t1)"])
        unfolding top by simp
    qed
  qed
qed

lemma path_len_upper:
  "shaped t \<Longrightarrow> right t - left t + 1 \<le> 2 ^ k \<Longrightarrow> path_len t idx \<le> k + 1"
proof (induction t arbitrary: k)
  case (Node nl nr v lc rc)
  show ?case
  proof (cases "nl = nr")
    case True
    then show ?thesis by simp
  next
    case False
    let ?m = "(nl + nr) div 2"
    from False Node.prems(1) obtain a b where
      ab: "lc = Some a" "rc = Some b" and
      sh: "left a = nl" "right a = ?m" "left b = ?m + 1" "right b = nr" "shaped a" "shaped b"
      and le: "nl \<le> nr"
      by (auto split: option.splits)
    from Node.prems(2) False le obtain k' where k: "k = Suc k'"
      by (cases k) auto
    define p :: int where "p = 2 ^ k'"
    have p: "nr - nl + 1 \<le> 2 * p" using Node.prems(2) by (simp add: k p_def)
    have "right a - left a + 1 \<le> 2 ^ k'" "right b - left b + 1 \<le> 2 ^ k'"
      unfolding sh p_def [symmetric] using p le False by linarith+
    with Node.IH(1) [of a k'] Node.IH(2) [of b k'] ab sh
    have "path_len a idx \<le> k' + 1" "path_len b idx \<le> k' + 1" by simp_all
    with False ab k show ?thesis by simp
  qed
qed

lemma path_len_lower:
  "shaped t \<Longrightarrow> 2 ^ k \<le> right t - left t + 1 \<Longrightarrow> k + 1 \<le> path_len t idx"
proof (induction t arbitrary: k)
  case (Node nl nr v lc rc)
  show ?case
  proof (cases "nl = nr")
    case True
    with Node.prems(2) have "(2 :: int) ^ k \<le> 1" by simp
    then have "k = 0"
    proof (cases k)
      case 0
      then show ?thesis .
    next
      case (Suc j)
      have "(1 :: int) \<le> 2 ^ j" by simp
      then have "(2 :: int) \<le> 2 ^ k" unfolding Suc by simp
      with \<open>(2 :: int) ^ k \<le> 1\<close> show ?thesis by simp
    qed
    with True show ?thesis by simp
  next
    case False
    let ?m = "(nl + nr) div 2"
    from False Node.prems(1) obtain a b where
      ab: "lc = Some a" "rc = Some b" and
      sh: "left a = nl" "right a = ?m" "left b = ?m + 1" "right b = nr" "shaped a" "shaped b"
      and le: "nl \<le> nr"
      by (auto split: option.splits)
    show ?thesis
    proof (cases k)
      case 0
      then show ?thesis using False by simp
    next
      case (Suc k')
      define p :: int where "p = 2 ^ k'"
      have p: "2 * p \<le> nr - nl + 1" using Node.prems(2) by (simp add: Suc p_def)
      have "2 ^ k' \<le> right a - left a + 1" "2 ^ k' \<le> right b - left b + 1"
        unfolding sh p_def [symmetric] using p le False by linarith+
      with Node.IH(1) [of a k'] Node.IH(2) [of b k'] ab sh
      have "k' + 1 \<le> path_len a idx" "k' + 1 \<le> path_len b idx" by simp_all
      with False ab Suc show ?thesis by simp
    qed
  qed
qed

lemma path_len_log:
  assumes "shaped t" "left t = 0" "right t = n - 1"
  shows "floorlog 2 (nat n) \<le> path_len t idx \<and> path_len t idx \<le> ceillog2 (nat n) + 1"
proof -
  have n: "1 \<le> n" using shaped_le [OF assms(1)] assms(2,3) by simp
  have s: "right t - left t + 1 = int (nat n)" using assms(2,3) n by simp
  have "nat n \<le> 2 ^ ceillog2 (nat n)" by (rule le_two_power_ceillog2)
  then have "int (nat n) \<le> 2 ^ ceillog2 (nat n)"
    by (metis of_nat_le_iff of_nat_numeral of_nat_power)
  then have up: "path_len t idx \<le> ceillog2 (nat n) + 1"
    using path_len_upper [OF assms(1), of "ceillog2 (nat n)" idx] s by simp
  have "2 ^ (floorlog 2 (nat n) - 1) \<le> nat n"
    using floorlog_bounds [of "nat n" 2] n by simp
  then have "(2 :: int) ^ (floorlog 2 (nat n) - 1) \<le> int (nat n)"
    by (metis of_nat_le_iff of_nat_numeral of_nat_power)
  then have "floorlog 2 (nat n) - 1 + 1 \<le> path_len t idx"
    using path_len_lower [OF assms(1), of "floorlog 2 (nat n) - 1" idx] s by simp
  then have "floorlog 2 (nat n) \<le> path_len t idx" by simp
  with up show ?thesis by simp
qed

lemmas pst_eval = pst_after_def PST_init_def update_def query_def py_getitem_def Let_def
  eval_nat_numeral leaves_in_def

lemmas fsbm_eval = fsbm_after_def FSBM_init_def add_branch_def get_branch_result_def
  get_all_results_def py_setitem_def

section \<open>The claims\<close>

subsection \<open>C1\<close>

text \<open>
  Claim C1 (persistence). Take a tree built with a size \<open>n \<ge> 1\<close> and updated any number of
  times, a version \<open>v\<close> of it, and any further call of \<open>update\<close>, from any version and
  whether it returns or raises. Then \<open>query(v, l, r)\<close> gives the same result on the tree
  after that call as before it, for all \<open>l\<close> and \<open>r\<close>, and the result is the list of the
  values that the leaves of version \<open>v\<close> held before the call.
\<close>

theorem query_persistent:
  assumes "pst_after depth n calls = Inr t"
    and "update t ver idx x = (out, t')"
    and "0 \<le> v" and "v < int (length (versions t))"
  shows "query t' v l r = query t v l r \<and>
         query t' v l r = Inr (leaves_in (versions t ! nat v) l r)"
  using query_after_update [OF assms(2-4)] query_tree_ok [OF pst_after_ok [OF assms(1)] assms(3,4)]
  by simp

text \<open>The size-4 tree after \<open>update(0, 0, "A")\<close>, then \<open>update(1, 2, "B")\<close>, queried at
  version \<open>1\<close>.\<close>

theorem query_persistent_witness:
  "\<exists>t out t'.
     pst_after 3 4 [(0, 0, Some ''A'')] = Inr t \<and>
     update t 1 2 (Some ''B'') = (out, t') \<and>
     (0 :: int) \<le> 1 \<and> 1 < int (length (versions t)) \<and>
     query t' 1 0 3 = query t 1 0 3 \<and>
     query t' 1 0 3 = Inr [Some ''A'', None, None, None]"
proof -
  define t where "t = projr (pst_after 3 4 [(0, 0, Some ''A'')])"
  have t: "pst_after 3 4 [(0, 0, Some ''A'')] = Inr t"
    unfolding t_def by (simp add: pst_eval)
  obtain out t' where u: "update t 1 2 (Some ''B'') = (out, t')"
    by (cases "update t 1 2 (Some ''B'')")
  have len: "1 < int (length (versions t))"
    unfolding t_def by (simp add: pst_eval)
  have val: "leaves_in (versions t ! nat 1) 0 3 = [Some ''A'', None, None, None]"
    unfolding t_def by (simp add: pst_eval)
  have "query t' 1 0 3 = query t 1 0 3 \<and>
        query t' 1 0 3 = Inr (leaves_in (versions t ! nat 1) 0 3)"
    by (rule query_persistent [OF t u _ len]) simp
  then have "query t' 1 0 3 = query t 1 0 3 \<and>
        query t' 1 0 3 = Inr [Some ''A'', None, None, None]"
    unfolding val .
  with t u len show ?thesis by - (rule exI [of _ t], rule exI [of _ out], rule exI [of _ t'], auto)
qed

subsection \<open>C2\<close>

text \<open>
  Claim C2 (point round-trip). On a tree built with a size \<open>n \<ge> 1\<close>, for a version \<open>v\<close>, an
  index \<open>0 \<le> idx < n\<close> and a value \<open>x\<close>, \<open>update(v, idx, x)\<close> returns a new version, the
  number of versions there were, and \<open>query\<close> of that version at \<open>[idx, idx]\<close> is \<open>[x]\<close>.
\<close>

theorem point_round_trip:
  assumes "pst_after depth n calls = Inr t"
    and "0 \<le> v" and "v < int (length (versions t))"
    and "0 \<le> idx" and "idx < n"
  shows "\<exists>t'. update t v idx x = (Inr (int (length (versions t))), t') \<and>
              query t' (int (length (versions t))) idx idx = Inr [x]"
proof -
  have c: "max 0 (min (n - 1) idx) = idx" using assms(4,5) by simp
  from update_then_point_query [OF pst_after_ok [OF assms(1)], of v idx x] assms(2,3)
  show ?thesis unfolding c by auto
qed

text \<open>The size-4 tree after \<open>update(0, 0, "A")\<close>: \<open>update(1, 2, "B")\<close> returns version \<open>2\<close>.\<close>

theorem point_round_trip_witness:
  "\<exists>t t'.
     pst_after 3 4 [(0, 0, Some ''A'')] = Inr t \<and>
     (0 :: int) \<le> 1 \<and> 1 < int (length (versions t)) \<and> (0 :: int) \<le> 2 \<and> (2 :: int) < 4 \<and>
     update t 1 2 (Some ''B'') = (Inr 2, t') \<and>
     query t' 2 2 2 = Inr [Some ''B'']"
proof -
  define t where "t = projr (pst_after 3 4 [(0, 0, Some ''A'')])"
  have t: "pst_after 3 4 [(0, 0, Some ''A'')] = Inr t"
    unfolding t_def by (simp add: pst_eval)
  have len: "int (length (versions t)) = 2"
    unfolding t_def by (simp add: pst_eval)
  from point_round_trip [OF t, of 1 2 "Some ''B''"] len obtain t' where
    "update t 1 2 (Some ''B'') = (Inr 2, t')" "query t' 2 2 2 = Inr [Some ''B'']"
    by auto
  with t len show ?thesis by - (rule exI [of _ t], rule exI [of _ t'], simp)
qed

subsection \<open>C3\<close>

text \<open>
  Claim C3, as the code has it. \<open>update(version, idx, value)\<close> raises exactly when
  \<open>version\<close> is outside \<open>[-len(versions), len(versions))\<close>; it raises \<open>IndexError\<close> and
  leaves the tree as it was. For every other \<open>version\<close> and for every \<open>idx\<close>, inside
  \<open>[0, size - 1]\<close> or not, it returns and appends one version. The values of the new version
  are those of the version updated from, which for a negative \<open>version\<close> is the one at
  \<open>len(versions) + version\<close>, with \<open>value\<close> at the index \<open>idx\<close> moved into \<open>[0, size - 1]\<close>,
  and \<open>query\<close> of the new version returns these values.
\<close>

theorem update_failure:
  assumes "pst_after depth n calls = Inr t"
  shows "(ver < - int (length (versions t)) \<or> int (length (versions t)) \<le> ver \<longrightarrow>
           update t ver idx x = (Inl IndexError, t)) \<and>
         (- int (length (versions t)) \<le> ver \<and> ver < int (length (versions t)) \<longrightarrow>
           (\<exists>rt'. update t ver idx x =
                    (Inr (int (length (versions t))), t\<lparr>versions := versions t @ [rt']\<rparr>) \<and>
              values_of rt' =
                (values_of (versions t !
                   nat (if ver < 0 then int (length (versions t)) + ver else ver)))
                [nat (max 0 (min (n - 1) idx)) := x] \<and>
              (\<forall>l r. query (t\<lparr>versions := versions t @ [rt']\<rparr>) (int (length (versions t))) l r =
                 Inr (map (\<lambda>i. values_of rt' ! nat i) [max 0 l..min (n - 1) r]))))"
proof -
  note ok = pst_after_ok [OF assms]
  have a: "update t ver idx x = (Inl IndexError, t)"
    if "ver < - int (length (versions t)) \<or> int (length (versions t)) \<le> ver"
    using update_Inl [OF py_getitem_outside [OF that]] .
  from a update_new_version [OF ok, of ver idx x] show ?thesis by blast
qed

text \<open>The size-4 tree with two versions: version \<open>5\<close> raises; version \<open>-1\<close> with index
  \<open>9\<close> returns a copy of version \<open>1\<close> with the value at leaf \<open>3\<close>.\<close>

theorem update_failure_witness:
  "\<exists>t rt'. pst_after 3 4 [(0, 0, Some ''A'')] = Inr t \<and>
       int (length (versions t)) \<le> 5 \<and>
       update t 5 0 (Some ''B'') = (Inl IndexError, t) \<and>
       - int (length (versions t)) \<le> - 1 \<and> - 1 < int (length (versions t)) \<and>
       update t (- 1) 9 (Some ''B'') = (Inr 2, t\<lparr>versions := versions t @ [rt']\<rparr>) \<and>
       values_of (versions t ! 1) = [Some ''A'', None, None, None] \<and>
       values_of rt' = [Some ''A'', None, None, Some ''B''] \<and>
       query (t\<lparr>versions := versions t @ [rt']\<rparr>) 2 0 3 =
         Inr [Some ''A'', None, None, Some ''B'']"
proof -
  define t where "t = projr (pst_after 3 4 [(0, 0, Some ''A'')])"
  have t: "pst_after 3 4 [(0, 0, Some ''A'')] = Inr t"
    unfolding t_def by (simp add: pst_eval)
  have len: "int (length (versions t)) = 2"
    unfolding t_def by (simp add: pst_eval)
  have p: "values_of (versions t ! 1) = [Some ''A'', None, None, None]"
    unfolding t_def by (simp add: pst_eval values_of_def)
  have a: "update t 5 0 (Some ''B'') = (Inl IndexError, t)"
    by (rule update_failure [OF t, THEN conjunct1, THEN mp]) (simp add: len)
  have "- int (length (versions t)) \<le> - 1 \<and> - 1 < int (length (versions t))"
    by (simp add: len)
  from update_failure [OF t, THEN conjunct2, THEN mp, OF this, of 9 "Some ''B''"]
  obtain rt' where
    b: "update t (- 1) 9 (Some ''B'') =
          (Inr (int (length (versions t))), t\<lparr>versions := versions t @ [rt']\<rparr>)" and
    c: "values_of rt' =
          (values_of (versions t ! nat (if - 1 < (0 :: int) then int (length (versions t)) + - 1 else - 1)))
          [nat (max 0 (min (4 - 1) 9)) := Some ''B'']" and
    d: "\<forall>l r. query (t\<lparr>versions := versions t @ [rt']\<rparr>) (int (length (versions t))) l r =
          Inr (map (\<lambda>i. values_of rt' ! nat i) [max 0 l..min (4 - 1) r])"
    by blast
  have p': "values_of (versions t ! Suc 0) = [Some ''A'', None, None, None]"
    using p by simp
  have c': "values_of rt' = [Some ''A'', None, None, Some ''B'']"
    using c by (simp add: len p' eval_nat_numeral)
  have u: "[max 0 0..min (4 - 1) 3] = [0, 1, 2, 3 :: int]" by (simp add: upto.simps)
  have d': "query (t\<lparr>versions := versions t @ [rt']\<rparr>) 2 0 3 =
         Inr [Some ''A'', None, None, Some ''B'']"
    using d [THEN spec, THEN spec, of 0 3] unfolding u len c' by simp
  have b': "update t (- 1) 9 (Some ''B'') = (Inr 2, t\<lparr>versions := versions t @ [rt']\<rparr>)"
    using b by (simp add: len)
  from t len a b' p c' d' show ?thesis
    by - (rule exI [of _ t], rule exI [of _ rt'], simp)
qed

text \<open>The size-2 tree as it is built: \<open>update(-1, 5, "x")\<close> raises neither for the negative
  version nor for the index beyond the size; it returns version \<open>1\<close>, with \<open>"x"\<close> at leaf
  \<open>1\<close>.\<close>

theorem update_failure_counterexample:
  "PST_init 2 2 =
     Inr \<lparr>pst_size = 2,
          versions = [Node 0 1 None (Some (Node 0 0 None None None))
                        (Some (Node 1 1 None None None))]\<rparr> \<and>
   update \<lparr>pst_size = 2,
           versions = [Node 0 1 None (Some (Node 0 0 None None None))
                         (Some (Node 1 1 None None None))]\<rparr>
          (- 1) 5 (Some ''x'') =
     (Inr 1,
      \<lparr>pst_size = 2,
       versions = [Node 0 1 None (Some (Node 0 0 None None None))
                     (Some (Node 1 1 None None None)),
                   Node 0 1 None (Some (Node 0 0 None None None))
                     (Some (Node 1 1 (Some ''x'') None None))]\<rparr>)"
  by (simp add: pst_eval)

subsection \<open>C4\<close>

text \<open>
  Claim C4, as the code has it. On a tracker built with \<open>max_branches \<ge> 1\<close> and used through
  \<open>add_branch\<close> only, \<open>get_all_results(v)\<close> returns, for every version \<open>v\<close>, a list whose
  length is the tracker's present \<open>next_idx\<close>, which is the number of versions less one
  whatever \<open>v\<close> is; the list is empty when \<open>next_idx\<close> is \<open>0\<close>.
\<close>

theorem get_all_results_length:
  assumes "fsbm_after depth mx calls = Inr m"
    and "0 \<le> v" and "v < int (length (versions (tree m)))"
  shows "\<exists>xs. get_all_results m v = Inr xs \<and> length xs = nat (next_idx m) \<and>
              int (length (versions (tree m))) = next_idx m + 1 \<and>
              (next_idx m = 0 \<longrightarrow> xs = [])"
proof -
  note ok = fsbm_after_ok [OF assms(1)]
  then have t: "tree_ok mx (tree m)" and i: "0 \<le> next_idx m" "next_idx m \<le> mx"
    and len: "int (length (versions (tree m))) = next_idx m + 1"
    by (simp_all add: fsbm_ok_def)
  have "versions (tree m) ! nat v \<in> set (versions (tree m))" using assms(2,3) by simp
  note s = tree_ok_member [OF t this]
  have q: "get_all_results m v = Inr (leaves_in (versions (tree m) ! nat v) 0 (next_idx m - 1))"
    unfolding get_all_results_def by (rule query_tree_ok [OF t assms(2,3)])
  have "length (leaves_in (versions (tree m) ! nat v) 0 (next_idx m - 1)) = nat (next_idx m)"
    using length_leaves_in [of "versions (tree m) ! nat v" 0 "next_idx m - 1"] s i by simp
  with q len show ?thesis by auto
qed

text \<open>The tracker of capacity \<open>4\<close> after three calls of \<open>add_branch\<close>, asked for version
  \<open>1\<close>, and the tracker as it is built, asked for version \<open>0\<close>.\<close>

theorem get_all_results_length_witness:
  "\<exists>m m0 :: (string, string) fsbm.
       fsbm_after 3 4 [(''p1'', Some ''r1'', None), (''p2'', Some ''r2'', None),
                       (''p3'', Some ''r3'', None)] = Inr m \<and>
       (0 :: int) \<le> 1 \<and> 1 < int (length (versions (tree m))) \<and>
       get_all_results m 1 = Inr [Some ''r1'', None, None] \<and>
       length [Some ''r1'', None, None :: string option] = nat (next_idx m) \<and>
       int (length (versions (tree m))) = next_idx m + 1 \<and>
       fsbm_after 3 4 [] = Inr m0 \<and>
       (0 :: int) \<le> 0 \<and> 0 < int (length (versions (tree m0))) \<and> next_idx m0 = 0 \<and>
       get_all_results m0 0 = Inr []"
proof -
  define m :: "(string, string) fsbm" where
    "m = projr (fsbm_after 3 4 [(''p1'', Some ''r1'', None), (''p2'', Some ''r2'', None),
                         (''p3'', Some ''r3'', None)])"
  define m0 :: "(string, string) fsbm" where "m0 = projr (fsbm_after 3 4 [])"
  have m: "fsbm_after 3 4 [(''p1'', Some ''r1'', None), (''p2'', Some ''r2'', None),
                         (''p3'', Some ''r3'', None)] = Inr m"
    unfolding m_def by (simp add: fsbm_eval pst_eval)
  have len: "1 < int (length (versions (tree m)))"
    unfolding m_def by (simp add: fsbm_eval pst_eval)
  have val: "get_all_results m 1 = Inr [Some ''r1'', None, None]"
    unfolding m_def by (simp add: fsbm_eval pst_eval)
  from get_all_results_length [OF m _ len] val
  have cnt: "length [Some ''r1'', None, None :: string option] = nat (next_idx m) \<and>
        int (length (versions (tree m))) = next_idx m + 1"
    by auto
  have m0: "fsbm_after 3 4 [] = Inr m0"
    unfolding m0_def by (simp add: fsbm_eval pst_eval)
  have len0: "0 < int (length (versions (tree m0)))" and n0: "next_idx m0 = 0"
    unfolding m0_def by (simp_all add: fsbm_eval pst_eval)
  from get_all_results_length [OF m0 _ len0] n0 have "get_all_results m0 0 = Inr []" by auto
  with m len val cnt m0 len0 n0 show ?thesis
    by - (rule exI [of _ m], rule exI [of _ m0], simp)
qed

text \<open>Capacity \<open>2\<close>: the first \<open>add_branch\<close> returns version \<open>1\<close> and leaves
  \<open>next_idx = 1\<close>; after a second \<open>add_branch\<close>, \<open>get_all_results(1)\<close> has two
  elements.\<close>

theorem get_all_results_length_counterexample:
  "fst (add_branch (projr (fsbm_after 2 2 [])) ''p1'' (Some ''r1'') None) = Inr 1 \<and>
   next_idx (snd (add_branch (projr (fsbm_after 2 2 [])) ''p1'' (Some ''r1'') None)) = 1 \<and>
   get_all_results
     (projr (fsbm_after 2 2 [(''p1'', Some ''r1'', None), (''p2'', Some ''r2'', None)])) 1 =
     Inr [Some ''r1'', None]"
  by (simp add: fsbm_eval pst_eval)

subsection \<open>C5\<close>

text \<open>
  Claim C5, as the code has it. On a tracker built with \<open>max_branches = mx\<close>: when
  \<open>next_idx \<ge> mx\<close>, \<open>add_branch\<close> raises \<open>IndexError\<close> and leaves the tracker as it was.
  Every \<open>add_branch\<close> that raises raises \<open>IndexError\<close> and leaves the tree with its
  versions, \<open>next_idx\<close> and \<open>current_version\<close> as they were; the tracker after it is the
  tracker before it, or differs from it in slot \<open>next_idx\<close> of \<open>branch_params\<close>, which then
  holds the new record. The latter is what an explicit \<open>from_version\<close> outside
  \<open>[-len(versions), len(versions))\<close> gives when there is room.
\<close>

theorem add_branch_failure:
  assumes "fsbm_after depth mx calls = Inr m"
  shows "(mx \<le> next_idx m \<longrightarrow> add_branch m p r fv = (Inl IndexError, m)) \<and>
         (\<forall>e m'. add_branch m p r fv = (Inl e, m') \<longrightarrow>
            e = IndexError \<and> tree m' = tree m \<and> next_idx m' = next_idx m \<and>
            current_version m' = current_version m \<and>
            (m' = m \<or>
             m' = m\<lparr>branch_params := (branch_params m)[nat (next_idx m) := Some (p, r)]\<rparr>)) \<and>
         (next_idx m < mx \<and>
          (f < - int (length (versions (tree m))) \<or> int (length (versions (tree m))) \<le> f) \<longrightarrow>
            add_branch m p r (Some f) =
              (Inl IndexError,
               m\<lparr>branch_params := (branch_params m)[nat (next_idx m) := Some (p, r)]\<rparr>))"
proof -
  note ok = fsbm_after_ok [OF assms]
  have a: "mx \<le> next_idx m \<Longrightarrow> add_branch m p r fv = (Inl IndexError, m)"
    by (rule add_branch_full [OF ok])
  have b: "e = IndexError \<and> tree m' = tree m \<and> next_idx m' = next_idx m \<and>
            current_version m' = current_version m \<and>
            (m' = m \<or>
             m' = m\<lparr>branch_params := (branch_params m)[nat (next_idx m) := Some (p, r)]\<rparr>)"
    if f: "add_branch m p r fv = (Inl e, m')" for e m'
  proof (cases "mx \<le> next_idx m")
    case True
    with a f show ?thesis by simp
  next
    case False
    then have "next_idx m < mx" by simp
    from add_branch_room [OF ok this, of p r fv] f show ?thesis by auto
  qed
  have c: "add_branch m p r (Some f) =
              (Inl IndexError,
               m\<lparr>branch_params := (branch_params m)[nat (next_idx m) := Some (p, r)]\<rparr>)"
    if "next_idx m < mx \<and>
          (f < - int (length (versions (tree m))) \<or> int (length (versions (tree m))) \<le> f)"
    using add_branch_room [OF ok, of p r "Some f"] that
    by (auto simp: from_version_of_def dest: py_getitem_Inr)
  from a b c show ?thesis by blast
qed

text \<open>Capacity \<open>2\<close>: a third \<open>add_branch\<close>, and an \<open>add_branch\<close> from version \<open>5\<close> on
  the tracker as it is built.\<close>

theorem add_branch_failure_witness:
  "\<exists>full fresh :: (string, string) fsbm.
     fsbm_after 2 2 [(''p1'', Some ''r1'', None), (''p2'', Some ''r2'', None)] = Inr full \<and>
     2 \<le> next_idx full \<and>
     add_branch full ''p3'' (Some ''r3'') None = (Inl IndexError, full) \<and>
     fsbm_after 2 2 [] = Inr fresh \<and>
     next_idx fresh < 2 \<and> int (length (versions (tree fresh))) \<le> 5 \<and>
     add_branch fresh ''p'' (Some ''r'') (Some 5) =
       (Inl IndexError,
        fresh\<lparr>branch_params := (branch_params fresh)[nat (next_idx fresh) := Some (''p'', Some ''r'')]\<rparr>) \<and>
     tree (snd (add_branch fresh ''p'' (Some ''r'') (Some 5))) = tree fresh \<and>
     next_idx (snd (add_branch fresh ''p'' (Some ''r'') (Some 5))) = next_idx fresh \<and>
     current_version (snd (add_branch fresh ''p'' (Some ''r'') (Some 5))) = current_version fresh"
proof -
  define full :: "(string, string) fsbm" where
    "full = projr (fsbm_after 2 2 [(''p1'', Some ''r1'', None), (''p2'', Some ''r2'', None)])"
  define fresh :: "(string, string) fsbm" where "fresh = projr (fsbm_after 2 2 [])"
  have full: "fsbm_after 2 2 [(''p1'', Some ''r1'', None), (''p2'', Some ''r2'', None)] = Inr full"
    unfolding full_def by (simp add: fsbm_eval pst_eval)
  have fresh: "fsbm_after 2 2 [] = Inr fresh"
    unfolding fresh_def by (simp add: fsbm_eval pst_eval)
  have n: "2 \<le> next_idx full"
    unfolding full_def by (simp add: fsbm_eval pst_eval)
  have k: "next_idx fresh < 2" "int (length (versions (tree fresh))) \<le> 5"
    unfolding fresh_def by (simp_all add: fsbm_eval pst_eval)
  have a: "add_branch full ''p3'' (Some ''r3'') None = (Inl IndexError, full)"
    by (rule add_branch_failure [OF full, THEN conjunct1, THEN mp]) (rule n)
  have b: "add_branch fresh ''p'' (Some ''r'') (Some 5) =
       (Inl IndexError,
        fresh\<lparr>branch_params := (branch_params fresh)[nat (next_idx fresh) := Some (''p'', Some ''r'')]\<rparr>)"
    by (rule add_branch_failure [OF fresh, THEN conjunct2, THEN conjunct2, THEN mp])
      (use k in auto)
  have c: "tree (snd (add_branch fresh ''p'' (Some ''r'') (Some 5))) = tree fresh"
    "next_idx (snd (add_branch fresh ''p'' (Some ''r'') (Some 5))) = next_idx fresh"
    "current_version (snd (add_branch fresh ''p'' (Some ''r'') (Some 5))) = current_version fresh"
    unfolding b by simp_all
  show ?thesis
    apply (rule exI [of _ full], rule exI [of _ fresh])
    apply (intro conjI)
    apply (rule full n a fresh k b c)+
    done
qed

text \<open>Capacity \<open>2\<close>, as built: \<open>add_branch\<close> from version \<open>5\<close> raises, and slot \<open>0\<close> of
  \<open>branch_params\<close> holds the record afterwards.\<close>

theorem add_branch_failure_counterexample:
  "branch_params (projr (fsbm_after 2 2 []) :: (string, string) fsbm) = [None, None] \<and>
   fst (add_branch (projr (fsbm_after 2 2 [])) ''p'' (Some ''r'') (Some 5)) = Inl IndexError \<and>
   branch_params (snd (add_branch (projr (fsbm_after 2 2 [])) ''p'' (Some ''r'') (Some 5))) =
     [Some (''p'', Some ''r''), None]"
  by (simp add: fsbm_eval pst_eval)

subsection \<open>C6\<close>

text \<open>
  Claim C6, as the code has it. Let the store hold a tree over \<open>[0, n - 1]\<close> at the
  reference \<open>a\<close>. With a depth bound of at least the number of nodes on the path, \<open>_update\<close>
  returns, changes no object of the store and creates one new object for every node on the
  path from the root to the leaf that \<open>idx\<close> leads to. Their number is at least
  \<open>\<lfloor>log2 n\<rfloor> + 1\<close> and at most \<open>\<lceil>log2 n\<rceil> + 1\<close>, and it is \<open>\<lceil>log2 n\<rceil> + 1\<close> when \<open>n\<close>
  is a power of two. Every object reachable from the new root is one of the new objects or
  an object reachable from the old root, every new object is reachable from the new root,
  and the new root is the root of the tree that \<open>priv_update\<close> computes.
\<close>

theorem update_sharing:
  fixes h :: "'v heap"
  assumes "heap_closed h" and "repr h a t" and "shaped t" and "left t = 0" and "right t = n - 1"
  shows "\<exists>ns t'.
     (\<forall>d. length ns \<le> d \<longrightarrow>
        heap_update d h (Some a) idx x = Inr (h @ ns, length h + length ns - 1)) \<and>
     length ns = path_len t idx \<and>
     floorlog 2 (nat n) \<le> length ns \<and> length ns \<le> ceillog2 (nat n) + 1 \<and>
     (\<forall>k. n = 2 ^ k \<longrightarrow> length ns = k + 1) \<and>
     (\<forall>b. reach (h @ ns) (length h + length ns - 1) b \<longrightarrow> length h \<le> b \<or> reach h a b) \<and>
     (\<forall>b. length h \<le> b \<and> b < length h + length ns \<longrightarrow>
        reach (h @ ns) (length h + length ns - 1) b) \<and>
     priv_update (Some t) idx x = Inr t' \<and> repr (h @ ns) (length h + length ns - 1) t'"
proof -
  from heap_update_repr [OF assms(1,3,2), of idx x] obtain ns t' where
    r: "priv_update (Some t) idx x = Inr t'" "length ns = path_len t idx"
      "\<forall>d. path_len t idx \<le> d \<longrightarrow>
        heap_update d h (Some a) idx x = Inr (h @ ns, length h + length ns - 1)"
      "repr (h @ ns) (length h + length ns - 1) t'"
      "\<forall>b. reach (h @ ns) (length h + length ns - 1) b \<longrightarrow> length h \<le> b \<or> reach h a b"
      "\<forall>b. length h \<le> b \<and> b < length h + length ns \<longrightarrow>
        reach (h @ ns) (length h + length ns - 1) b"
    by blast
  note lg = path_len_log [OF assms(3-5), of idx]
  have pw: "length ns = k + 1" if "n = 2 ^ k" for k
  proof -
    have "right t - left t + 1 = 2 ^ k" using assms(4,5) that by simp
    with path_len_upper [OF assms(3), of k idx] path_len_lower [OF assms(3), of k idx] r(2)
    show ?thesis by simp
  qed
  show ?thesis
    apply (rule exI [of _ ns], rule exI [of _ t'])
    using r lg pw by simp
qed

text \<open>The store that \<open>_build\<close> makes for the tree of size \<open>3\<close>, updated at index \<open>0\<close>.\<close>

theorem update_sharing_witness:
  "\<exists>(h :: string heap) t ns t'.
     h = [\<lparr>o_left = 0, o_right = 0, o_value = None, o_left_child = None, o_right_child = None\<rparr>,
          \<lparr>o_left = 1, o_right = 1, o_value = None, o_left_child = None, o_right_child = None\<rparr>,
          \<lparr>o_left = 0, o_right = 1, o_value = None, o_left_child = Some 0, o_right_child = Some 1\<rparr>,
          \<lparr>o_left = 2, o_right = 2, o_value = None, o_left_child = None, o_right_child = None\<rparr>,
          \<lparr>o_left = 0, o_right = 2, o_value = None, o_left_child = Some 2, o_right_child = Some 3\<rparr>] \<and>
     heap_build 3 [] 0 2 = Inr (h, 4) \<and> priv_build 3 0 2 = Inr t \<and>
     heap_closed h \<and> repr h 4 t \<and> shaped t \<and> left t = 0 \<and> right t = 3 - 1 \<and>
     heap_update 3 h (Some 4) 0 (Some ''x'') = Inr (h @ ns, length h + length ns - 1) \<and>
     length ns = 3 \<and> floorlog 2 (nat 3) \<le> length ns \<and> length ns \<le> ceillog2 (nat 3) + 1 \<and>
     priv_update (Some t) 0 (Some ''x'') = Inr t' \<and>
     repr (h @ ns) (length h + length ns - 1) t'"
proof -
  define h :: "string heap" where "h =
         [\<lparr>o_left = 0, o_right = 0, o_value = None, o_left_child = None, o_right_child = None\<rparr>,
          \<lparr>o_left = 1, o_right = 1, o_value = None, o_left_child = None, o_right_child = None\<rparr>,
          \<lparr>o_left = 0, o_right = 1, o_value = None, o_left_child = Some 0, o_right_child = Some 1\<rparr>,
          \<lparr>o_left = 2, o_right = 2, o_value = None, o_left_child = None, o_right_child = None\<rparr>,
          \<lparr>o_left = 0, o_right = 2, o_value = None, o_left_child = Some 2, o_right_child = Some 3\<rparr>]"
  define t :: "string node" where "t = projr (priv_build 3 0 2)"
  have b: "priv_build 3 0 2 = Inr t" unfolding t_def by (simp add: eval_nat_numeral)
  have hb: "heap_build 3 [] 0 2 = Inr (h, 4)"
    unfolding h_def by (simp add: eval_nat_numeral new_node_def Let_def)
  have c: "heap_closed h" unfolding h_def by (simp add: heap_closed_def children_def upt_rec)
  have r: "repr h 4 t" unfolding h_def t_def by (simp add: eval_nat_numeral)
  have s: "shaped t" "left t = 0" "right t = 3 - 1" unfolding t_def by (simp_all add: eval_nat_numeral)
  have p: "path_len t 0 = 3" unfolding t_def by (simp add: eval_nat_numeral)
  from update_sharing [OF c r s, of 0 "Some ''x''"] obtain ns t' where
    u: "\<forall>d. length ns \<le> d \<longrightarrow>
          heap_update d h (Some 4) 0 (Some ''x'') = Inr (h @ ns, length h + length ns - 1)" and
    l: "length ns = path_len t 0" and
    g: "floorlog 2 (nat 3) \<le> length ns" "length ns \<le> ceillog2 (nat 3) + 1" and
    q: "priv_update (Some t) 0 (Some ''x'') = Inr t'"
       "repr (h @ ns) (length h + length ns - 1) t'"
    by blast
  have len: "length ns = 3" using l p by simp
  have "heap_update 3 h (Some 4) 0 (Some ''x'') = Inr (h @ ns, length h + length ns - 1)"
    using u len by simp
  with b hb c r s len g q show ?thesis
    apply -
    apply (rule exI [of _ h], rule exI [of _ t], rule exI [of _ ns], rule exI [of _ t'])
    unfolding h_def [symmetric] by simp
qed

text \<open>The same tree updated at index \<open>2\<close>: the leaf \<open>[2, 2]\<close> is a child of the root, two
  objects are created, and \<open>\<lceil>log2 3\<rceil> + 1\<close> is \<open>3\<close>.\<close>

theorem update_sharing_counterexample:
  "heap_build 3 [] 0 2 =
     Inr ([\<lparr>o_left = 0, o_right = 0, o_value = None, o_left_child = None, o_right_child = None\<rparr>,
      \<lparr>o_left = 1, o_right = 1, o_value = None, o_left_child = None, o_right_child = None\<rparr>,
      \<lparr>o_left = 0, o_right = 1, o_value = None, o_left_child = Some 0, o_right_child = Some 1\<rparr>,
      \<lparr>o_left = 2, o_right = 2, o_value = None, o_left_child = None, o_right_child = None\<rparr>,
      \<lparr>o_left = 0, o_right = 2, o_value = None, o_left_child = Some 2, o_right_child = Some 3\<rparr>] :: string heap, 4) \<and>
   heap_update 3
     [\<lparr>o_left = 0, o_right = 0, o_value = None, o_left_child = None, o_right_child = None\<rparr>,
      \<lparr>o_left = 1, o_right = 1, o_value = None, o_left_child = None, o_right_child = None\<rparr>,
      \<lparr>o_left = 0, o_right = 1, o_value = None, o_left_child = Some 0, o_right_child = Some 1\<rparr>,
      \<lparr>o_left = 2, o_right = 2, o_value = None, o_left_child = None, o_right_child = None\<rparr>,
      \<lparr>o_left = 0, o_right = 2, o_value = None, o_left_child = Some 2, o_right_child = Some 3\<rparr>]
     (Some 4) 2 (Some ''x'') =
   Inr ([\<lparr>o_left = 0, o_right = 0, o_value = None, o_left_child = None, o_right_child = None\<rparr>,
      \<lparr>o_left = 1, o_right = 1, o_value = None, o_left_child = None, o_right_child = None\<rparr>,
      \<lparr>o_left = 0, o_right = 1, o_value = None, o_left_child = Some 0, o_right_child = Some 1\<rparr>,
      \<lparr>o_left = 2, o_right = 2, o_value = None, o_left_child = None, o_right_child = None\<rparr>,
      \<lparr>o_left = 0, o_right = 2, o_value = None, o_left_child = Some 2, o_right_child = Some 3\<rparr>] @
     [\<lparr>o_left = 2, o_right = 2, o_value = Some ''x'', o_left_child = None, o_right_child = None\<rparr>,
      \<lparr>o_left = 0, o_right = 2, o_value = None, o_left_child = Some 2, o_right_child = Some 5\<rparr>],
     6) \<and>
   ceillog2 3 + 1 = 3"
proof -
  have "ceillog2 3 = 2" by (rule ceillog2_eqI) simp_all
  then have d: "ceillog2 3 + 1 = 3" by simp
  show ?thesis
    apply (intro conjI)
      apply (simp add: eval_nat_numeral new_node_def Let_def)
     apply (simp add: eval_nat_numeral new_node_def Let_def)
    apply (rule d)
    done
qed

subsection \<open>C7\<close>

text \<open>
  Claim C7, as the code has it. On a tracker built with \<open>max_branches = mx\<close> and a version
  \<open>v\<close>: \<open>get_branch_result(v, j)\<close> raises \<open>IndexError\<close> for \<open>j\<close> outside \<open>[0, mx)\<close>,
  returns a value or \<open>None\<close> for \<open>j\<close> inside, and returns \<open>None\<close> for every slot
  \<open>next_idx \<le> j < mx\<close> that no \<open>add_branch\<close> has taken. Version \<open>0\<close> gives \<open>None\<close> at every
  slot. After an \<open>add_branch\<close> that returns the version \<open>v'\<close>, the result for \<open>v'\<close> is the
  new result at the slot taken, and at every other slot what the version updated from gives;
  the results for the versions that were there do not change.
\<close>

theorem get_branch_result_cases:
  assumes "fsbm_after depth mx calls = Inr m"
  shows "(0 \<le> v \<and> v < int (length (versions (tree m))) \<longrightarrow>
           (j < 0 \<or> mx \<le> j \<longrightarrow> get_branch_result m v j = Inl IndexError) \<and>
           (next_idx m \<le> j \<and> j < mx \<longrightarrow> get_branch_result m v j = Inr None) \<and>
           (0 \<le> j \<and> j < mx \<longrightarrow> (\<exists>y. get_branch_result m v j = Inr y))) \<and>
         (0 \<le> j \<and> j < mx \<longrightarrow> get_branch_result m 0 j = Inr None) \<and>
         (\<forall>v' m'. add_branch m p r fv = (Inr v', m') \<longrightarrow>
            get_branch_result m' v' (next_idx m) = Inr r \<and>
            (j \<noteq> next_idx m \<longrightarrow>
               get_branch_result m' v' j =
               get_branch_result m (case fv of None \<Rightarrow> current_version m | Some f \<Rightarrow> f) j) \<and>
            (0 \<le> v \<and> v < int (length (versions (tree m))) \<longrightarrow>
               get_branch_result m' v j = get_branch_result m v j))"
proof -
  note ok = fsbm_after_ok [OF assms]
  have a: "0 \<le> v \<and> v < int (length (versions (tree m))) \<Longrightarrow>
           (j < 0 \<or> mx \<le> j \<longrightarrow> get_branch_result m v j = Inl IndexError) \<and>
           (next_idx m \<le> j \<and> j < mx \<longrightarrow> get_branch_result m v j = Inr None) \<and>
           (0 \<le> j \<and> j < mx \<longrightarrow> (\<exists>y. get_branch_result m v j = Inr y))"
    using get_branch_result_range [OF ok py_getitem_nonneg, of v j] by blast
  have b: "0 \<le> j \<and> j < mx \<Longrightarrow> get_branch_result m 0 j = Inr None"
    using get_branch_result_version0 [OF ok] by simp
  have c: "add_branch m p r fv = (Inr v', m') \<Longrightarrow>
            get_branch_result m' v' (next_idx m) = Inr r \<and>
            (j \<noteq> next_idx m \<longrightarrow>
               get_branch_result m' v' j =
               get_branch_result m (case fv of None \<Rightarrow> current_version m | Some f \<Rightarrow> f) j) \<and>
            (0 \<le> v \<and> v < int (length (versions (tree m))) \<longrightarrow>
               get_branch_result m' v j = get_branch_result m v j)" for v' m'
    using get_branch_result_after_add [OF ok, of p r fv v' m' j v]
    by (simp add: from_version_of_def)
  from a b c show ?thesis by blast
qed

text \<open>Capacity \<open>4\<close> after one \<open>add_branch\<close>, then a second one from version \<open>0\<close>.\<close>

theorem get_branch_result_cases_witness:
  "\<exists>m m' :: (string, string) fsbm.
     fsbm_after 3 4 [(''p1'', Some ''r1'', None)] = Inr m \<and>
     (0 :: int) \<le> 1 \<and> 1 < int (length (versions (tree m))) \<and>
     (4 :: int) \<le> 9 \<and> get_branch_result m 1 9 = Inl IndexError \<and>
     next_idx m \<le> 2 \<and> (2 :: int) < 4 \<and> get_branch_result m 1 2 = Inr None \<and>
     get_branch_result m 1 0 = Inr (Some ''r1'') \<and>
     get_branch_result m 0 0 = Inr None \<and>
     add_branch m ''p2'' (Some ''r2'') (Some 0) = (Inr 2, m') \<and>
     get_branch_result m' 2 (next_idx m) = Inr (Some ''r2'') \<and>
     0 \<noteq> next_idx m \<and>
     get_branch_result m' 2 0 = get_branch_result m 0 0 \<and>
     get_branch_result m' 1 0 = get_branch_result m 1 0"
proof -
  define m :: "(string, string) fsbm" where
    "m = projr (fsbm_after 3 4 [(''p1'', Some ''r1'', None)])"
  define m' where "m' = snd (add_branch m ''p2'' (Some ''r2'') (Some 0))"
  have m: "fsbm_after 3 4 [(''p1'', Some ''r1'', None)] = Inr m"
    unfolding m_def by (simp add: fsbm_eval pst_eval)
  have len: "(0 :: int) \<le> 1 \<and> 1 < int (length (versions (tree m)))" and n: "next_idx m = 1"
    unfolding m_def by (simp_all add: fsbm_eval pst_eval)
  have a: "add_branch m ''p2'' (Some ''r2'') (Some 0) = (Inr 2, m')"
    unfolding m'_def m_def by (simp add: fsbm_eval pst_eval)
  have r1: "get_branch_result m 1 0 = Inr (Some ''r1'')"
    unfolding m_def by (simp add: fsbm_eval pst_eval)
  note range = get_branch_result_cases [OF m, THEN conjunct1, THEN mp, OF len]
  have out: "get_branch_result m 1 9 = Inl IndexError"
    by (rule range [THEN conjunct1, THEN mp]) simp
  have un: "get_branch_result m 1 2 = Inr None"
    by (rule range [THEN conjunct2, THEN conjunct1, THEN mp]) (simp add: n)
  have v0: "get_branch_result m 0 0 = Inr None"
    by (rule get_branch_result_cases [OF m, THEN conjunct2, THEN conjunct1, THEN mp]) simp
  note step = get_branch_result_cases [OF m, THEN conjunct2, THEN conjunct2, THEN spec,
    THEN spec, THEN mp, OF a, of 0 1]
  have new: "get_branch_result m' 2 (next_idx m) = Inr (Some ''r2'')"
    by (rule step [THEN conjunct1])
  have other: "get_branch_result m' 2 0 = get_branch_result m 0 0"
    using step [THEN conjunct2, THEN conjunct1] n by simp
  have old: "get_branch_result m' 1 0 = get_branch_result m 1 0"
    using step [THEN conjunct2, THEN conjunct2] len by simp
  have ne: "0 \<noteq> next_idx m" "next_idx m \<le> 2" using n by simp_all
  have num: "(0 :: int) \<le> 1" "1 < int (length (versions (tree m)))" "(4 :: int) \<le> 9"
    "(2 :: int) < 4"
    using len by simp_all
  show ?thesis
    apply (rule exI [of _ m], rule exI [of _ m'])
    apply (intro conjI)
    apply (rule m out un r1 v0 a new ne other old num)+
    done
qed

text \<open>Capacity \<open>2\<close> after one \<open>add_branch\<close>: at version \<open>0\<close>, slot \<open>0\<close>, taken and
  not written on the way to version \<open>0\<close>, and slot \<open>1\<close>, never taken, both give \<open>None\<close>.\<close>

theorem get_branch_result_cases_counterexample:
  "next_idx (projr (fsbm_after 2 2 [(''p'', Some ''r'', None)])) = 1 \<and>
   get_branch_result (projr (fsbm_after 2 2 [(''p'', Some ''r'', None)])) 1 0 = Inr (Some ''r'') \<and>
   get_branch_result (projr (fsbm_after 2 2 [(''p'', Some ''r'', None)])) 0 0 = Inr None \<and>
   get_branch_result (projr (fsbm_after 2 2 [(''p'', Some ''r'', None)])) 0 1 = Inr None \<and>
   get_branch_result (projr (fsbm_after 2 2 [(''p'', Some ''r'', None)])) 1 1 = Inr None"
  by (simp add: fsbm_eval pst_eval)

subsection \<open>C8\<close>

text \<open>
  Claim C8, as the code has it. For \<open>n \<ge> 1\<close> the recursion of \<open>_build\<close> ends: with
  \<open>n \<le> 2 ^ k\<close> there is one tree that \<open>__init__\<close> returns whenever more than \<open>k\<close> nested
  calls of \<open>_build\<close> are allowed. A tree that \<open>__init__\<close> returns, whatever is allowed, has
  \<open>n \<ge> 1\<close> and the one version \<open>0\<close>, and a query of version \<open>0\<close> gives \<open>None\<close> for every
  index of \<open>[l, r]\<close> within \<open>[0, n - 1]\<close>. For \<open>n < 1\<close> the recursion does not end: whatever
  number of nested calls is allowed, the outcome is \<open>RecursionError\<close> and no tree.
\<close>

theorem build_outcomes:
  "(1 \<le> n \<and> n \<le> 2 ^ k \<longrightarrow>
      (\<exists>t :: 'v pst. \<forall>d. k < d \<longrightarrow> PST_init d n = Inr t)) \<and>
   (\<forall>t :: 'v pst. PST_init depth n = Inr t \<longrightarrow>
      1 \<le> n \<and> pst_size t = n \<and> length (versions t) = 1 \<and>
      (\<forall>l r. query t 0 l r = Inr (map (\<lambda>i. None) [max 0 l..min (n - 1) r]))) \<and>
   (n < 1 \<longrightarrow> PST_init depth n = (Inl RecursionError :: error + 'v pst))"
proof (intro conjI impI allI)
  assume "1 \<le> n \<and> n \<le> 2 ^ k"
  then obtain rt :: "'v node" where rt: "priv_build (Suc k) 0 (n - 1) = Inr rt"
    using priv_build_enough [of 0 "n - 1" k] by auto
  have "PST_init d n = Inr \<lparr>pst_size = n, versions = [rt]\<rparr>" if "k < d" for d
    using priv_build_mono [OF _ rt, of d] that by (simp add: PST_init_def)
  then show "\<exists>t :: 'v pst. \<forall>d. k < d \<longrightarrow> PST_init d n = Inr t" by blast
next
  assume "n < 1"
  then show "PST_init depth n = (Inl RecursionError :: error + 'v pst)"
    by (simp add: PST_init_def priv_build_empty)
next
  fix t :: "'v pst" assume t: "PST_init depth n = Inr t"
  note ok = PST_init_ok [OF t]
  then show "1 \<le> n" "pst_size t = n" "length (versions t) = 1" by (simp_all add: tree_ok_def)
  fix l r
  from t obtain rt where rt: "priv_build depth 0 (n - 1) = Inr rt" and v: "versions t = [rt]"
    by (auto simp: PST_init_def split: sum.splits)
  have "leaves_in rt l r = map (\<lambda>i. None) [max 0 l..min (n - 1) r]"
    using priv_build_Inr [OF rt] by (simp add: leaves_in_def filter_map comp_def filter_upto_range)
  moreover have "query t 0 l r = Inr (leaves_in (versions t ! nat 0) l r)"
    using ok by (intro query_tree_ok [of n]) simp_all
  ultimately show "query t 0 l r = Inr (map (\<lambda>i. None) [max 0 l..min (n - 1) r])"
    using v by simp
qed

text \<open>Size \<open>4\<close> with \<open>3\<close> and with \<open>1000\<close> nested calls allowed, and size \<open>0\<close>.\<close>

theorem build_outcomes_witness:
  "(1 :: int) \<le> 4 \<and> (4 :: int) \<le> 2 ^ 2 \<and>
   (\<exists>t :: string pst. (2 :: nat) < 3 \<and> PST_init 3 4 = Inr t \<and> (2 :: nat) < 1000 \<and>
      PST_init 1000 4 = Inr t \<and> pst_size t = 4 \<and> length (versions t) = 1 \<and>
      query t 0 0 3 = Inr [None, None, None, None]) \<and>
   (0 :: int) < 1 \<and> PST_init 7 0 = (Inl RecursionError :: error + string pst)"
proof -
  have h: "(1 :: int) \<le> 4 \<and> (4 :: int) \<le> 2 ^ 2" by simp
  from build_outcomes [of 4 2 3, THEN conjunct1, THEN mp, OF h] obtain t :: "string pst" where
    t: "\<forall>d. 2 < d \<longrightarrow> PST_init d 4 = Inr t" by blast
  then have t3: "PST_init 3 4 = Inr t" and t1000: "PST_init 1000 4 = Inr t" by simp_all
  from build_outcomes [of 4 2 3, THEN conjunct2, THEN conjunct1, THEN spec, THEN mp, OF t3]
  have "pst_size t = 4 \<and> length (versions t) = 1 \<and>
        query t 0 0 3 = Inr (map (\<lambda>i. None) [max 0 0..min (4 - 1) 3])"
    by blast
  moreover have "[max 0 0..min (4 - 1) 3] = [0, 1, 2, 3 :: int]" by (simp add: upto.simps)
  moreover have "PST_init 7 0 = (Inl RecursionError :: error + string pst)"
    by (rule build_outcomes [of 0 0 7, THEN conjunct2, THEN conjunct2, THEN mp]) simp
  ultimately show ?thesis using t3 t1000 by auto
qed

text \<open>Size \<open>0\<close> with \<open>1000\<close> nested calls allowed: the outcome is \<open>RecursionError\<close>.\<close>

theorem build_outcomes_counterexample:
  "PST_init 1000 0 = (Inl RecursionError :: error + string pst)"
  by (simp add: PST_init_def priv_build_empty)

subsection \<open>C9\<close>

text \<open>
  Claim C9 (query output shape). On a tree built with a size \<open>n \<ge> 1\<close> and updated by the
  calls \<open>calls\<close>, there are as many versions as \<open>arrays_after n calls\<close> has lists, each of
  \<open>n\<close> values, and \<open>query(v, l, r)\<close> returns, without raising, the values of version \<open>v\<close>
  at the indices \<open>max 0 l, \<dots>, min (n - 1) r\<close> in this order: a value that an update on the
  way to version \<open>v\<close> has written, and \<open>None\<close> at an index that none has written. These are
  the values of the leaves of the version's tree, which carry the indices \<open>0, \<dots>, n - 1\<close> from
  left to right. When \<open>l > r\<close> the result is empty.
\<close>

theorem query_shape:
  assumes "pst_after depth n calls = Inr t"
    and "0 \<le> v" and "v < int (length (versions t))"
  shows "length (arrays_after n calls) = length (versions t) \<and>
         length (arrays_after n calls ! nat v) = nat n \<and>
         query t v l r =
           Inr (map (\<lambda>i. arrays_after n calls ! nat v ! nat i) [max 0 l..min (n - 1) r]) \<and>
         map fst (leaves (versions t ! nat v)) = [0..n - 1] \<and>
         map snd (leaves (versions t ! nat v)) = arrays_after n calls ! nat v \<and>
         (r < l \<longrightarrow> query t v l r = Inr [])"
proof -
  note ok = pst_after_ok [OF assms(1)]
  note ar = pst_after_arrays [OF assms(1)]
  have k: "nat v < length (versions t)" using assms(2,3) by simp
  then have "versions t ! nat v \<in> set (versions t)" by simp
  from tree_ok_member [OF ok this] have
    s: "shaped (versions t ! nat v)" "left (versions t ! nat v) = 0"
      "right (versions t ! nat v) = n - 1"
    by simp_all
  have a: "arrays_after n calls ! nat v = values_of (versions t ! nat v)"
    using k by (simp add: ar [symmetric])
  have len: "length (arrays_after n calls) = length (versions t)" by (simp add: ar [symmetric])
  have q: "query t v l r =
      Inr (map (\<lambda>i. arrays_after n calls ! nat v ! nat i) [max 0 l..min (n - 1) r])"
    unfolding a query_tree_ok [OF ok assms(2,3)] leaves_in_values [OF s] ..
  have e: "query t v l r = Inr []" if "r < l" using that unfolding q by simp
  have f: "map fst (leaves (versions t ! nat v)) = [0..n - 1]"
    using leaves_fst [OF s(1)] s(2,3) by simp
  from len q e f a length_values_of(1) [OF s] show ?thesis by (simp add: values_of_def)
qed

text \<open>Scenario A of the specification, version \<open>2\<close>: the range \<open>[1, 7]\<close> gives the
  values at \<open>1, 2, 3\<close>, the range \<open>[3, 1]\<close> nothing.\<close>

theorem query_shape_witness:
  "\<exists>t. pst_after 3 4 [(0, 0, Some ''A''), (1, 2, Some ''B'')] = Inr t \<and>
       (0 :: int) \<le> 2 \<and> 2 < int (length (versions t)) \<and>
       arrays_after 4 [(0, 0, Some ''A''), (1, 2, Some ''B'')] =
         [[None, None, None, None], [Some ''A'', None, None, None],
          [Some ''A'', None, Some ''B'', None]] \<and>
       query t 2 1 7 = Inr [None, Some ''B'', None] \<and>
       map fst (leaves (versions t ! nat 2)) = [0..4 - 1] \<and>
       map snd (leaves (versions t ! nat 2)) = [Some ''A'', None, Some ''B'', None] \<and>
       (1 :: int) < 3 \<and> query t 2 3 1 = Inr []"
proof -
  define t where "t = projr (pst_after 3 4 [(0, 0, Some ''A''), (1, 2, Some ''B'')])"
  have t: "pst_after 3 4 [(0, 0, Some ''A''), (1, 2, Some ''B'')] = Inr t"
    unfolding t_def by (simp add: pst_eval)
  have len: "2 < int (length (versions t))"
    unfolding t_def by (simp add: pst_eval)
  have ar: "arrays_after 4 [(0, 0, Some ''A''), (1, 2, Some ''B'')] =
         [[None, None, None, None], [Some ''A'', None, None, None],
          [Some ''A'', None, Some ''B'', None]]"
    by (simp add: arrays_after_def array_update_def py_getitem_def eval_nat_numeral)
  have u: "[max 0 1..min (4 - 1) 7] = [1, 2, 3 :: int]" by (simp add: upto.simps)
  note q1 = query_shape [OF t _ len, of 1 7]
  note q2 = query_shape [OF t _ len, of 3 1]
  have a: "query t 2 1 7 = Inr [None, Some ''B'', None]"
    using q1 unfolding ar u by simp
  have b: "map fst (leaves (versions t ! nat 2)) = [0..4 - 1]" using q1 by simp
  have c: "map snd (leaves (versions t ! nat 2)) = [Some ''A'', None, Some ''B'', None]"
    using q1 unfolding ar by simp
  have d: "query t 2 3 1 = Inr []" using q2 by simp
  from t len ar a b c d show ?thesis by - (rule exI [of _ t], simp)
qed

subsection \<open>C10\<close>

text \<open>
  Claim C10 (out-of-range update). On a tree built with a size \<open>n \<ge> 1\<close>, for a version
  \<open>v\<close> and a value \<open>x\<close>: \<open>update(v, idx, x)\<close> with \<open>idx \<ge> n\<close> returns, appends one version
  and that version holds \<open>x\<close> at leaf \<open>n - 1\<close>; with \<open>idx < 0\<close> it returns, appends one version
  and that version holds \<open>x\<close> at leaf \<open>0\<close>.
\<close>

theorem update_clamps:
  assumes "pst_after depth n calls = Inr t"
    and "0 \<le> v" and "v < int (length (versions t))"
  shows "(n \<le> idx \<longrightarrow>
           (\<exists>rt'. update t v idx x =
                    (Inr (int (length (versions t))), t\<lparr>versions := versions t @ [rt']\<rparr>) \<and>
                  query (t\<lparr>versions := versions t @ [rt']\<rparr>) (int (length (versions t)))
                    (n - 1) (n - 1) = Inr [x])) \<and>
         (idx < 0 \<longrightarrow>
           (\<exists>rt'. update t v idx x =
                    (Inr (int (length (versions t))), t\<lparr>versions := versions t @ [rt']\<rparr>) \<and>
                  query (t\<lparr>versions := versions t @ [rt']\<rparr>) (int (length (versions t)))
                    0 0 = Inr [x]))"
proof -
  note ok = pst_after_ok [OF assms(1)]
  then have n: "1 \<le> n" by (simp add: tree_ok_def)
  have hi: "max 0 (min (n - 1) idx) = n - 1" if "n \<le> idx" using that n by simp
  have lo: "max 0 (min (n - 1) idx) = 0" if "idx < 0" using that n by simp
  from update_then_point_query [OF ok, of v idx x] assms(2,3)
  show ?thesis using hi lo by auto
qed

text \<open>The size-4 tree as it is built, with the indices \<open>7\<close> and \<open>-3\<close>.\<close>

theorem update_clamps_witness:
  "\<exists>t hi lo.
     pst_after 3 4 [] = Inr t \<and> (0 :: int) \<le> 0 \<and> 0 < int (length (versions t)) \<and>
     (4 :: int) \<le> 7 \<and>
     update t 0 7 (Some ''X'') = (Inr 1, t\<lparr>versions := versions t @ [hi]\<rparr>) \<and>
     query (t\<lparr>versions := versions t @ [hi]\<rparr>) 1 3 3 = Inr [Some ''X''] \<and>
     (- 3 :: int) < 0 \<and>
     update t 0 (- 3) (Some ''Y'') = (Inr 1, t\<lparr>versions := versions t @ [lo]\<rparr>) \<and>
     query (t\<lparr>versions := versions t @ [lo]\<rparr>) 1 0 0 = Inr [Some ''Y'']"
proof -
  define t :: "string pst" where "t = projr (pst_after 3 4 [])"
  have t: "pst_after 3 4 [] = Inr t"
    unfolding t_def by (simp add: pst_eval)
  have len: "int (length (versions t)) = 1"
    unfolding t_def by (simp add: pst_eval)
  have v: "(0 :: int) \<le> 0" "0 < int (length (versions t))" using len by simp_all
  from update_clamps [OF t v, of 7 "Some ''X''"] len obtain hi where
    hi: "update t 0 7 (Some ''X'') = (Inr 1, t\<lparr>versions := versions t @ [hi]\<rparr>)"
      "query (t\<lparr>versions := versions t @ [hi]\<rparr>) 1 3 3 = Inr [Some ''X'']"
    by auto
  from update_clamps [OF t v, of "- 3" "Some ''Y''"] len obtain lo where
    lo: "update t 0 (- 3) (Some ''Y'') = (Inr 1, t\<lparr>versions := versions t @ [lo]\<rparr>)"
      "query (t\<lparr>versions := versions t @ [lo]\<rparr>) 1 0 0 = Inr [Some ''Y'']"
    by auto
  from t v hi lo show ?thesis
    by - (rule exI [of _ t], rule exI [of _ hi], rule exI [of _ lo], simp)
qed

end
